theory Spec2Isabelle
  imports Complex_Main "HOL-Library.Multiset"
begin

section \<open>Data model\<close>

text \<open>
  A link is addressed by a pointer. A pointer that may be null is a \<open>LinkPtr option\<close>
  (\<open>None\<close> is the null pointer); the entries of a traversal and the arguments that the
  code dereferences without a test are plain pointers.
\<close>

type_synonym LinkPtr = nat
type_synonym BodyPtr = nat

text \<open>
  Vectors and matrices of the Eigen library (\<open>Vector3\<close>, \<open>Matrix3\<close>). A coefficient is
  a real number; the doubles are the real numbers that \<open>binary64\<close> (below) leaves as they
  are. The forward kinematics is modelled twice: first in the arithmetic of the real
  numbers, where no operation rounds, then in double precision, where every operation
  rounds its result.
\<close>

datatype Vector3 = Vector3 real real real

datatype Matrix3 = Matrix3 real real real  real real real  real real real  \<comment> \<open>row by row\<close>

text \<open>
  Modelled from the spec: the enumeration of joint types is declared in Link.h, which is
  not among the sources. LinkTraverse.cpp names the rotational, the slide and the fixed
  joint; every other value takes the default branch, that of the fixed joint.
\<close>

datatype JointType = ROTATIONAL_JOINT | SLIDE_JOINT | FREE_JOINT | FIXED_JOINT | OTHER_JOINT int

text \<open>
  Modelled from the spec: the class Link (Link.h) is not among the sources. The record has
  the members that LinkTraverse.cpp reads and writes through the accessors of a link:
  the structural pointers, the body the link belongs to, the joint type, the static joint
  geometry, the joint-space state and the Cartesian state.
\<close>

record Link =
  parent :: "LinkPtr option"
  child :: "LinkPtr option"
  sibling :: "LinkPtr option"
  body :: "BodyPtr option"
  jointType :: JointType
  Rb :: Matrix3
  b :: Vector3
  a :: Vector3
  d :: Vector3
  q :: real
  dq :: real
  ddq :: real
  R :: Matrix3
  p :: Vector3
  w :: Vector3
  v :: Vector3
  dw :: Vector3
  dv :: Vector3

type_synonym heap = "LinkPtr \<Rightarrow> Link"

text \<open>
  The members of LinkTraverse. The counter is a C++ \<open>int\<close>; the model takes it as a
  mathematical integer (the properties proved here concern values far from the ends of
  its range, where C++ leaves the overflow of an \<open>int\<close> undefined).
\<close>

record LinkTraverse =
  links :: "LinkPtr list"  \<comment> \<open>the member links_\<close>
  numUpwardConnections :: int

section \<open>Traversal builder\<close>

text \<open>
  \<open>traverse\<close> recurses over the pointers of the links, and on a cyclic structure it does
  not return. The model counts the nested calls and loop iterations with a fuel argument:
  \<open>None\<close> says that the fuel did not suffice. \<open>traverse_children\<close> is the loop over the
  children of a link, from the child \<open>child'\<close> on.
\<close>

fun traverse :: "nat \<Rightarrow> heap \<Rightarrow> LinkPtr \<Rightarrow> bool \<Rightarrow> bool \<Rightarrow> bool \<Rightarrow> LinkPtr option
                 \<Rightarrow> LinkTraverse \<Rightarrow> LinkTraverse option"
and traverse_children :: "nat \<Rightarrow> heap \<Rightarrow> LinkPtr option \<Rightarrow> LinkPtr option
                 \<Rightarrow> LinkTraverse \<Rightarrow> LinkTraverse option"
where
  "traverse 0 h link doUpward doDownward isUpward prev t = None"
| "traverse (Suc n) h link doUpward doDownward isUpward prev t =
     (let t1 = t\<lparr>links := links t @ [link]\<rparr>;
          t2 = (if isUpward
                then t1\<lparr>numUpwardConnections := numUpwardConnections t1 + 1\<rparr>
                else t1)
      in case (case parent (h link) of
                 None \<Rightarrow> Some t2
               | Some parent' \<Rightarrow>
                   if doUpward \<and> body (h parent') = body (h link)
                   then traverse n h parent' doUpward True True (Some link) t2
                   else Some t2) of
           None \<Rightarrow> None
         | Some t3 \<Rightarrow>
             if doDownward then traverse_children n h (child (h link)) prev t3 else Some t3)"
| "traverse_children n h None prev t = Some t"
| "traverse_children 0 h (Some child') prev t = None"
| "traverse_children (Suc n) h (Some child') prev t =
     (case (if Some child' \<noteq> prev
            then traverse n h child' False True False None t
            else Some t) of
        None \<Rightarrow> None
      | Some t1 \<Rightarrow> traverse_children n h (sibling (h child')) prev t1)"

text \<open>
  The first half of the body of \<open>traverse\<close> for \<open>doUpward\<close>: the recursion into the
  parent, when there is one in the same body.
\<close>

definition upward_part :: "nat \<Rightarrow> heap \<Rightarrow> LinkPtr \<Rightarrow> LinkTraverse \<Rightarrow> LinkTraverse option" where
  "upward_part n h link t =
     (case parent (h link) of
        None \<Rightarrow> Some t
      | Some parent' \<Rightarrow>
          if body (h parent') = body (h link)
          then traverse n h parent' True True True (Some link) t
          else Some t)"

text \<open>\<open>LinkTraverse::find\<close> (the name \<open>find\<close> is taken by the list library).\<close>

definition find_links :: "nat \<Rightarrow> heap \<Rightarrow> LinkPtr \<Rightarrow> bool \<Rightarrow> bool \<Rightarrow> LinkTraverse
                 \<Rightarrow> LinkTraverse option" where
  "find_links n h root' doUpward doDownward t =
     traverse n h root' doUpward doDownward False None
       (t\<lparr>numUpwardConnections := 0, links := []\<rparr>)"

text \<open>
  \<open>findRootAdjacentLink\<close> searches from \<open>link\<close> for the front entry \<open>root'\<close>: first
  through the parent while the flag \<open>isUpward\<close> is set, then through the children. The flag
  is a reference parameter: the model returns its final value with the result. The fuel
  argument is as for \<open>traverse\<close>. \<open>findRootAdjacentLink_children\<close> is the loop over the
  children, from the child \<open>child'\<close> on; \<open>upward_search\<close> is the search through the parent
  from a link whose parent is not the link the search came from.
\<close>

fun findRootAdjacentLink :: "nat \<Rightarrow> heap \<Rightarrow> LinkPtr \<Rightarrow> LinkPtr option \<Rightarrow> LinkPtr \<Rightarrow> bool
                 \<Rightarrow> (LinkPtr option \<times> bool) option"
and findRootAdjacentLink_children :: "nat \<Rightarrow> heap \<Rightarrow> LinkPtr option \<Rightarrow> LinkPtr \<Rightarrow> LinkPtr option
                 \<Rightarrow> LinkPtr \<Rightarrow> bool \<Rightarrow> (LinkPtr option \<times> bool) option"
where
  "findRootAdjacentLink 0 h link prev root' isUpward = None"
| "findRootAdjacentLink (Suc n) h link prev root' isUpward =
     (if link = root' then Some (prev, isUpward)
      else
        (case (if isUpward
               then (case parent (h link) of
                       None \<Rightarrow> Some (None, isUpward)
                     | Some parent' \<Rightarrow>
                         if Some parent' \<noteq> prev
                         then findRootAdjacentLink n h parent' (Some link) root' isUpward
                         else Some (None, isUpward))
               else Some (None, isUpward)) of
           None \<Rightarrow> None
         | Some (Some found, isUpward1) \<Rightarrow> Some (Some found, isUpward1)
         | Some (None, isUpward1) \<Rightarrow>
             findRootAdjacentLink_children n h (child (h link)) link prev root' False))"
| "findRootAdjacentLink_children n h None link prev root' isUpward = Some (None, isUpward)"
| "findRootAdjacentLink_children 0 h (Some child') link prev root' isUpward = None"
| "findRootAdjacentLink_children (Suc n) h (Some child') link prev root' isUpward =
     (case (if Some child' \<noteq> prev
            then findRootAdjacentLink n h child' (Some link) root' isUpward
            else Some (None, isUpward)) of
        None \<Rightarrow> None
      | Some (Some found, isUpward1) \<Rightarrow> Some (Some found, isUpward1)
      | Some (None, isUpward1) \<Rightarrow>
          findRootAdjacentLink_children n h (sibling (h child')) link prev root' isUpward1)"

definition upward_search :: "nat \<Rightarrow> heap \<Rightarrow> LinkPtr \<Rightarrow> LinkPtr \<Rightarrow> (LinkPtr option \<times> bool) option" where
  "upward_search n h link root' =
     (case parent (h link) of
        None \<Rightarrow> Some (None, True)
      | Some parent' \<Rightarrow> findRootAdjacentLink n h parent' (Some link) root' True)"

definition prependRootAdjacentLinkToward :: "nat \<Rightarrow> heap \<Rightarrow> LinkPtr \<Rightarrow> LinkTraverse
                 \<Rightarrow> (LinkPtr option \<times> LinkTraverse) option" where
  "prependRootAdjacentLinkToward n h link t =
     (case links t of
        [] \<Rightarrow> Some (None, t)
      | front # _ \<Rightarrow>
          (case findRootAdjacentLink n h link None front True of
             None \<Rightarrow> None
           | Some (None, isUpward) \<Rightarrow> Some (None, t)
           | Some (Some linkToPrepend, isUpward) \<Rightarrow>
               (let t1 = t\<lparr>links := linkToPrepend # links t\<rparr>
                in Some (Some linkToPrepend,
                         if isUpward
                         then t1\<lparr>numUpwardConnections := numUpwardConnections t1 + 1\<rparr>
                         else t1))))"

section \<open>Incremental edits\<close>

definition clear :: "LinkTraverse \<Rightarrow> LinkTraverse" where
  "clear t = t\<lparr>links := [], numUpwardConnections := 0\<rparr>"

definition append :: "LinkPtr \<Rightarrow> bool \<Rightarrow> LinkTraverse \<Rightarrow> LinkTraverse" where
  "append link isDownward t =
     (let t1 = t\<lparr>links := links t @ [link]\<rparr>
      in if \<not> isDownward
         then t1\<lparr>numUpwardConnections := numUpwardConnections t1 + 1\<rparr>
         else t1)"

text \<open>The search loop of \<open>remove\<close>: the first index \<open>i\<close>, from \<open>i\<close> on, that holds \<open>link\<close>.\<close>

fun find_index_from :: "LinkPtr list \<Rightarrow> LinkPtr \<Rightarrow> nat \<Rightarrow> int" where
  "find_index_from [] link i = -1"
| "find_index_from (x # xs) link i =
     (if x = link then int i else find_index_from xs link (Suc i))"

definition erase :: "'a list \<Rightarrow> nat \<Rightarrow> 'a list" where
  "erase xs i = take i xs @ drop (Suc i) xs"

definition remove :: "LinkPtr \<Rightarrow> LinkTraverse \<Rightarrow> bool \<times> LinkTraverse" where
  "remove link t =
     (let index = find_index_from (links t) link 0
      in if index \<ge> 0
         then
           (let t1 = (if index \<le> numUpwardConnections t
                      then t\<lparr>numUpwardConnections := numUpwardConnections t - 1\<rparr>
                      else t)
            in (True, t1\<lparr>links := erase (links t1) (nat index)\<rparr>))
         else (False, t))"

section \<open>Vector and matrix operations\<close>

text \<open>
  The operations of the Eigen library that the forward kinematics uses (Eigen is not
  part of the repository): sum, difference, scaling and cross product of vectors, the
  products of a matrix with a vector and with a matrix, the transpose, and the rotation
  matrix of an angle-axis pair. A \<open>Matrix3\<close> lists its coefficients row by row.
\<close>

fun vadd :: "Vector3 \<Rightarrow> Vector3 \<Rightarrow> Vector3" where
  "vadd (Vector3 x1 y1 z1) (Vector3 x2 y2 z2) = Vector3 (x1 + x2) (y1 + y2) (z1 + z2)"

fun vsub :: "Vector3 \<Rightarrow> Vector3 \<Rightarrow> Vector3" where
  "vsub (Vector3 x1 y1 z1) (Vector3 x2 y2 z2) = Vector3 (x1 - x2) (y1 - y2) (z1 - z2)"

fun smul :: "real \<Rightarrow> Vector3 \<Rightarrow> Vector3" where
  "smul k (Vector3 x y z) = Vector3 (k * x) (k * y) (k * z)"

fun cross :: "Vector3 \<Rightarrow> Vector3 \<Rightarrow> Vector3" where
  "cross (Vector3 x1 y1 z1) (Vector3 x2 y2 z2) =
     Vector3 (y1 * z2 - z1 * y2) (z1 * x2 - x1 * z2) (x1 * y2 - y1 * x2)"

fun mvmul :: "Matrix3 \<Rightarrow> Vector3 \<Rightarrow> Vector3" where
  "mvmul (Matrix3 m00 m01 m02 m10 m11 m12 m20 m21 m22) (Vector3 x y z) =
     Vector3 (m00 * x + m01 * y + m02 * z)
             (m10 * x + m11 * y + m12 * z)
             (m20 * x + m21 * y + m22 * z)"

fun mmul :: "Matrix3 \<Rightarrow> Matrix3 \<Rightarrow> Matrix3" where
  "mmul (Matrix3 a00 a01 a02 a10 a11 a12 a20 a21 a22)
        (Matrix3 b00 b01 b02 b10 b11 b12 b20 b21 b22) =
     Matrix3 (a00 * b00 + a01 * b10 + a02 * b20)
             (a00 * b01 + a01 * b11 + a02 * b21)
             (a00 * b02 + a01 * b12 + a02 * b22)
             (a10 * b00 + a11 * b10 + a12 * b20)
             (a10 * b01 + a11 * b11 + a12 * b21)
             (a10 * b02 + a11 * b12 + a12 * b22)
             (a20 * b00 + a21 * b10 + a22 * b20)
             (a20 * b01 + a21 * b11 + a22 * b21)
             (a20 * b02 + a21 * b12 + a22 * b22)"

fun transposeM :: "Matrix3 \<Rightarrow> Matrix3" where
  "transposeM (Matrix3 m00 m01 m02 m10 m11 m12 m20 m21 m22) =
     Matrix3 m00 m10 m20 m01 m11 m21 m02 m12 m22"

definition Identity :: Matrix3 where
  "Identity = Matrix3 1 0 0 0 1 0 0 0 1"

definition Zero :: Vector3 where
  "Zero = Vector3 0 0 0"

text \<open>
  \<open>AngleAxisd angle axis\<close> stands for the rotation matrix that Eigen's
  \<open>AngleAxisd(angle, axis)\<close> turns into when it is multiplied with a matrix
  (\<open>toRotationMatrix\<close>, the formula of Rodrigues, which takes the axis as a unit vector).
  The inverse of \<open>AngleAxisd(angle, axis)\<close> is \<open>AngleAxisd(-angle, axis)\<close>.
\<close>

fun AngleAxisd :: "real \<Rightarrow> Vector3 \<Rightarrow> Matrix3" where
  "AngleAxisd angle (Vector3 ax ay az) =
     (let s = sin angle; c = cos angle; c1 = 1 - c
      in Matrix3 (c1 * ax * ax + c)       (c1 * ax * ay - s * az)  (c1 * ax * az + s * ay)
                 (c1 * ax * ay + s * az)  (c1 * ay * ay + c)       (c1 * ay * az - s * ax)
                 (c1 * ax * az - s * ay)  (c1 * ay * az + s * ax)  (c1 * az * az + c))"

definition AngleAxisd_inverse :: "real \<Rightarrow> Vector3 \<Rightarrow> Matrix3" where
  "AngleAxisd_inverse angle axis = AngleAxisd (- angle) axis"

section \<open>Forward kinematics\<close>

text \<open>
  The assignments of \<open>calcForwardKinematics\<close> to the Cartesian state of the link at
  \<open>l\<close>. Each right-hand side is evaluated on the state before its assignment.
\<close>

definition set_R :: "LinkPtr \<Rightarrow> Matrix3 \<Rightarrow> heap \<Rightarrow> heap" where
  "set_R l m h = h(l := (h l)\<lparr>R := m\<rparr>)"

definition set_p :: "LinkPtr \<Rightarrow> Vector3 \<Rightarrow> heap \<Rightarrow> heap" where
  "set_p l x h = h(l := (h l)\<lparr>p := x\<rparr>)"

definition set_w :: "LinkPtr \<Rightarrow> Vector3 \<Rightarrow> heap \<Rightarrow> heap" where
  "set_w l x h = h(l := (h l)\<lparr>w := x\<rparr>)"

definition set_v :: "LinkPtr \<Rightarrow> Vector3 \<Rightarrow> heap \<Rightarrow> heap" where
  "set_v l x h = h(l := (h l)\<lparr>v := x\<rparr>)"

definition set_dw :: "LinkPtr \<Rightarrow> Vector3 \<Rightarrow> heap \<Rightarrow> heap" where
  "set_dw l x h = h(l := (h l)\<lparr>dw := x\<rparr>)"

definition set_dv :: "LinkPtr \<Rightarrow> Vector3 \<Rightarrow> heap \<Rightarrow> heap" where
  "set_dv l x h = h(l := (h l)\<lparr>dv := x\<rparr>)"

text \<open>
  The body of the first loop: \<open>link = links_[i]\<close> is computed from
  \<open>child = links_[i-1]\<close>, by the joint type of the child.
\<close>

definition upward_rotational :: "bool \<Rightarrow> bool \<Rightarrow> LinkPtr \<Rightarrow> LinkPtr \<Rightarrow> heap \<Rightarrow> heap" where
  "upward_rotational calcVelocity calcAcceleration link child' h =
     (let h1 = set_R link (mmul (mmul (R (h child')) (AngleAxisd_inverse (q (h child')) (a (h child'))))
                                (transposeM (Rb (h child')))) h;
          arm = mvmul (R (h1 link)) (b (h1 child'));
          h2 = set_p link (vsub (p (h1 child')) arm) h1
      in if calcVelocity then
           (let sw = mvmul (R (h2 link)) (mvmul (Rb (h2 child')) (a (h2 child')));
                h3 = set_w link (vsub (w (h2 child')) (smul (dq (h2 child')) sw)) h2;
                h4 = set_v link (vsub (v (h3 child')) (cross (w (h3 link)) arm)) h3
            in if calcAcceleration then
                 (let h5 = set_dw link (vsub (vsub (dw (h4 child'))
                                                   (smul (dq (h4 child')) (cross (w (h4 link)) sw)))
                                             (smul (ddq (h4 child')) sw)) h4;
                      h6 = set_dv link (vsub (vsub (dv (h5 child'))
                                                   (cross (w (h5 link)) (cross (w (h5 link)) arm)))
                                             (cross (dw (h5 link)) arm)) h5
                  in h6)
               else h4)
         else h2)"

definition upward_slide :: "bool \<Rightarrow> bool \<Rightarrow> LinkPtr \<Rightarrow> LinkPtr \<Rightarrow> heap \<Rightarrow> heap" where
  "upward_slide calcVelocity calcAcceleration link child' h =
     (let h1 = set_R link (mmul (R (h child')) (transposeM (Rb (h child')))) h;
          arm = mvmul (R (h1 link))
                  (vadd (b (h1 child')) (mvmul (Rb (h1 child')) (smul (q (h1 child')) (d (h1 child')))));
          h2 = set_p link (vsub (p (h1 child')) arm) h1
      in if calcVelocity then
           (let sv = mvmul (R (h2 link)) (mvmul (Rb (h2 child')) (d (h2 child')));
                h3 = set_w link (w (h2 child')) h2;
                h4 = set_v link (vsub (v (h3 child')) (smul (dq (h3 child')) sv)) h3
            in if calcAcceleration then
                 (let h5 = set_dw link (dw (h4 child')) h4;
                      h6 = set_dv link
                             (vsub (vsub (vsub (vsub (dv (h5 child'))
                                                     (cross (w (h5 child')) (cross (w (h5 child')) arm)))
                                               (cross (dw (h5 child')) arm))
                                         (smul (2 * dq (h5 child')) (cross (w (h5 child')) sv)))
                                   (smul (ddq (h5 child')) sv)) h5
                  in h6)
               else h4)
         else h2)"

definition upward_fixed :: "bool \<Rightarrow> bool \<Rightarrow> LinkPtr \<Rightarrow> LinkPtr \<Rightarrow> heap \<Rightarrow> heap" where
  "upward_fixed calcVelocity calcAcceleration link child' h =
     (let h1 = set_R link (mmul (R (h child')) (transposeM (Rb (h child')))) h;
          arm = mvmul (R (h1 link)) (b (h1 child'));
          h2 = set_p link (vsub (p (h1 child')) arm) h1
      in if calcVelocity then
           (let h3 = set_w link (w (h2 child')) h2;
                h4 = set_v link (vsub (v (h3 child')) (cross (w (h3 link)) arm)) h3
            in if calcAcceleration then
                 (let h5 = set_dw link (dw (h4 child')) h4;
                      h6 = set_dv link (vsub (vsub (dv (h5 child'))
                                                   (cross (w (h5 child')) (cross (w (h5 child')) arm)))
                                             (cross (dw (h5 child')) arm)) h5
                  in h6)
               else h4)
         else h2)"

definition upward_step :: "bool \<Rightarrow> bool \<Rightarrow> LinkPtr \<Rightarrow> LinkPtr \<Rightarrow> heap \<Rightarrow> heap" where
  "upward_step calcVelocity calcAcceleration link child' h =
     (case jointType (h child') of
        ROTATIONAL_JOINT \<Rightarrow> upward_rotational calcVelocity calcAcceleration link child' h
      | SLIDE_JOINT \<Rightarrow> upward_slide calcVelocity calcAcceleration link child' h
      | _ \<Rightarrow> upward_fixed calcVelocity calcAcceleration link child' h)"

text \<open>
  The body of the second loop: \<open>link = links_[i]\<close> is computed from its structural
  parent, by its own joint type.
\<close>

definition downward_rotational :: "bool \<Rightarrow> bool \<Rightarrow> LinkPtr \<Rightarrow> LinkPtr \<Rightarrow> heap \<Rightarrow> heap" where
  "downward_rotational calcVelocity calcAcceleration link parent' h =
     (let h1 = set_R link (mmul (mmul (R (h parent')) (Rb (h link)))
                                (AngleAxisd (q (h link)) (a (h link)))) h;
          arm = mvmul (R (h1 parent')) (b (h1 link));
          h2 = set_p link (vadd (p (h1 parent')) arm) h1
      in if calcVelocity then
           (let sw = mvmul (R (h2 parent')) (mvmul (Rb (h2 link)) (a (h2 link)));
                h3 = set_w link (vadd (w (h2 parent')) (smul (dq (h2 link)) sw)) h2;
                h4 = set_v link (vadd (v (h3 parent')) (cross (w (h3 parent')) arm)) h3
            in if calcAcceleration then
                 (let h5 = set_dw link (vadd (vadd (dw (h4 parent'))
                                                   (smul (dq (h4 link)) (cross (w (h4 parent')) sw)))
                                             (smul (ddq (h4 link)) sw)) h4;
                      h6 = set_dv link (vadd (vadd (dv (h5 parent'))
                                                   (cross (w (h5 parent')) (cross (w (h5 parent')) arm)))
                                             (cross (dw (h5 parent')) arm)) h5
                  in h6)
               else h4)
         else h2)"

definition downward_slide :: "bool \<Rightarrow> bool \<Rightarrow> LinkPtr \<Rightarrow> LinkPtr \<Rightarrow> heap \<Rightarrow> heap" where
  "downward_slide calcVelocity calcAcceleration link parent' h =
     (let h1 = set_R link (mmul (R (h parent')) (Rb (h link))) h;
          arm = mvmul (R (h1 parent'))
                  (vadd (b (h1 link)) (mvmul (Rb (h1 link)) (smul (q (h1 link)) (d (h1 link)))));
          h2 = set_p link (vadd (p (h1 parent')) arm) h1
      in if calcVelocity then
           (let sv = mvmul (R (h2 parent')) (mvmul (Rb (h2 link)) (d (h2 link)));
                h3 = set_w link (w (h2 parent')) h2;
                h4 = set_v link (vadd (v (h3 parent')) (smul (dq (h3 link)) sv)) h3
            in if calcAcceleration then
                 (let h5 = set_dw link (dw (h4 parent')) h4;
                      h6 = set_dv link
                             (vadd (vadd (vadd (vadd (dv (h5 parent'))
                                                     (cross (w (h5 parent')) (cross (w (h5 parent')) arm)))
                                               (cross (dw (h5 parent')) arm))
                                         (smul (2 * dq (h5 link)) (cross (w (h5 parent')) sv)))
                                   (smul (ddq (h5 link)) sv)) h5
                  in h6)
               else h4)
         else h2)"

definition downward_fixed :: "bool \<Rightarrow> bool \<Rightarrow> LinkPtr \<Rightarrow> LinkPtr \<Rightarrow> heap \<Rightarrow> heap" where
  "downward_fixed calcVelocity calcAcceleration link parent' h =
     (let h1 = set_R link (mmul (R (h parent')) (Rb (h link))) h;
          arm = mvmul (R (h1 parent')) (b (h1 link));
          h2 = set_p link (vadd (p (h1 parent')) arm) h1
      in if calcVelocity then
           (let h3 = set_w link (w (h2 parent')) h2;
                h4 = set_v link (vadd (v (h3 parent')) (cross (w (h3 parent')) arm)) h3
            in if calcAcceleration then
                 (let h5 = set_dw link (dw (h4 parent')) h4;
                      h6 = set_dv link (vadd (vadd (dv (h5 parent'))
                                                   (cross (w (h5 parent')) (cross (w (h5 parent')) arm)))
                                             (cross (dw (h5 parent')) arm)) h5
                  in h6)
               else h4)
         else h2)"

text \<open>
  A run that dereferences a null parent, or reads the sequence past its end, has no
  defined result in C++; the model returns a fault there.
\<close>

datatype fault = NullPointer | OutOfRange

definition downward_step :: "bool \<Rightarrow> bool \<Rightarrow> LinkPtr \<Rightarrow> heap \<Rightarrow> fault + heap" where
  "downward_step calcVelocity calcAcceleration link h =
     (case parent (h link) of
        None \<Rightarrow> Inl NullPointer
      | Some parent' \<Rightarrow>
          Inr (case jointType (h link) of
                 ROTATIONAL_JOINT \<Rightarrow> downward_rotational calcVelocity calcAcceleration link parent' h
               | SLIDE_JOINT \<Rightarrow> downward_slide calcVelocity calcAcceleration link parent' h
               | _ \<Rightarrow> downward_fixed calcVelocity calcAcceleration link parent' h))"

function upward_loop :: "LinkTraverse \<Rightarrow> bool \<Rightarrow> bool \<Rightarrow> nat \<Rightarrow> heap \<Rightarrow> fault + (nat \<times> heap)" where
  "upward_loop t calcVelocity calcAcceleration i h =
     (if int i \<le> numUpwardConnections t then
        (if i < length (links t) then
           upward_loop t calcVelocity calcAcceleration (Suc i)
             (upward_step calcVelocity calcAcceleration (links t ! i) (links t ! (i - 1)) h)
         else Inl OutOfRange)
      else Inr (i, h))"
  by pat_completeness auto
termination
  by (relation "measure (\<lambda>(t, cv, ca, i, h). nat (numUpwardConnections t + 1 - int i))") auto

function downward_loop :: "LinkTraverse \<Rightarrow> bool \<Rightarrow> bool \<Rightarrow> nat \<Rightarrow> heap \<Rightarrow> fault + heap" where
  "downward_loop t calcVelocity calcAcceleration i h =
     (if i < length (links t) then
        (case downward_step calcVelocity calcAcceleration (links t ! i) h of
           Inl e \<Rightarrow> Inl e
         | Inr h' \<Rightarrow> downward_loop t calcVelocity calcAcceleration (Suc i) h')
      else Inr h)"
  by pat_completeness auto
termination
  by (relation "measure (\<lambda>(t, cv, ca, i, h). length (links t) - i)") auto

definition calcForwardKinematics :: "LinkTraverse \<Rightarrow> bool \<Rightarrow> bool \<Rightarrow> heap \<Rightarrow> fault + heap" where
  "calcForwardKinematics t calcVelocity calcAcceleration h =
     (case upward_loop t calcVelocity calcAcceleration 1 h of
        Inl e \<Rightarrow> Inl e
      | Inr (i, h1) \<Rightarrow> downward_loop t calcVelocity calcAcceleration i h1)"

section \<open>Frame relations, spec-level notions and test data\<close>

text \<open>
  What a run of \<open>calcForwardKinematics\<close> may change in a link, as relations between the
  link after and before: \<open>static_eq\<close> says that the structural pointers, the body, the
  joint type, the joint geometry and the joint-space state are the same; \<open>velocity_eq\<close>
  and \<open>acceleration_eq\<close> say the same of the velocities and of the accelerations.
\<close>

definition static_eq :: "Link \<Rightarrow> Link \<Rightarrow> bool" where
  "static_eq x y =
     (parent x = parent y \<and> child x = child y \<and> sibling x = sibling y \<and> body x = body y \<and>
      jointType x = jointType y \<and> Rb x = Rb y \<and> b x = b y \<and> a x = a y \<and> d x = d y \<and>
      q x = q y \<and> dq x = dq y \<and> ddq x = ddq y)"

definition velocity_eq :: "Link \<Rightarrow> Link \<Rightarrow> bool" where
  "velocity_eq x y = (w x = w y \<and> v x = v y)"

definition acceleration_eq :: "Link \<Rightarrow> Link \<Rightarrow> bool" where
  "acceleration_eq x y = (dw x = dw y \<and> dv x = dv y)"

definition keeps :: "bool \<Rightarrow> bool \<Rightarrow> Link \<Rightarrow> Link \<Rightarrow> bool" where
  "keeps cv ca x y =
     (static_eq x y \<and> (cv \<or> velocity_eq x y) \<and> ((cv \<and> ca) \<or> acceleration_eq x y))"






text \<open>
  A tree-structured mechanism. The tree \<open>Node l cs\<close> names the link \<open>l\<close> and the subtrees of
  its children in the order of the sibling list. \<open>subtree_ok h t\<close> says that the pointers
  of the heap lay the tree \<open>t\<close> out: the child pointer of a link is its first child, the
  sibling pointers chain the children, and every child points back to its parent.
  \<open>tree_mechanism h t\<close> adds that no link occurs twice, that all links belong to one body
  and that the parent of the root, if any, belongs to another body.
\<close>

datatype ltree = Node LinkPtr "ltree list"

fun root_of :: "ltree \<Rightarrow> LinkPtr" where
  "root_of (Node l cs) = l"

fun children_of :: "ltree \<Rightarrow> ltree list" where
  "children_of (Node l cs) = cs"

fun preorder :: "ltree \<Rightarrow> LinkPtr list" where
  "preorder (Node l cs) = l # concat (map preorder cs)"

fun subtrees :: "ltree \<Rightarrow> ltree list" where
  "subtrees (Node l cs) = Node l cs # concat (map subtrees cs)"

fun first_ptr :: "ltree list \<Rightarrow> LinkPtr option" where
  "first_ptr [] = None"
| "first_ptr (c # cs) = Some (root_of c)"

fun sibling_chain :: "heap \<Rightarrow> LinkPtr \<Rightarrow> ltree list \<Rightarrow> bool" where
  "sibling_chain h par [] = True"
| "sibling_chain h par (c # cs) =
     (parent (h (root_of c)) = Some par \<and> sibling (h (root_of c)) = first_ptr cs \<and>
      sibling_chain h par cs)"

fun subtree_ok :: "heap \<Rightarrow> ltree \<Rightarrow> bool" where
  "subtree_ok h (Node l cs) =
     (child (h l) = first_ptr cs \<and> sibling_chain h l cs \<and> (\<forall>c \<in> set cs. subtree_ok h c))"

definition tree_mechanism :: "heap \<Rightarrow> ltree \<Rightarrow> bool" where
  "tree_mechanism h t =
     (subtree_ok h t \<and> distinct (preorder t) \<and>
      (\<forall>l \<in> set (preorder t). body (h l) = body (h (root_of t))) \<and>
      (case parent (h (root_of t)) of
         None \<Rightarrow> True
       | Some par \<Rightarrow> body (h par) \<noteq> body (h (root_of t))))"

text \<open>
  The sequence that a walk from the link \<open>r\<close> of a tree builds, in two parts: the chain
  from \<open>r\<close> up to the root of the tree, and what follows the chain, namely the subtrees of
  the other children of every link of the chain above \<open>r\<close>, those of the root first, and at
  the end the subtrees of the children of \<open>r\<close> itself when \<open>doDownward\<close> is set.
\<close>

fun upward_walk :: "LinkPtr \<Rightarrow> bool \<Rightarrow> ltree \<Rightarrow> (LinkPtr list \<times> LinkPtr list) option"
and upward_walk_list :: "LinkPtr \<Rightarrow> bool \<Rightarrow> ltree list
                 \<Rightarrow> (ltree \<times> LinkPtr list \<times> LinkPtr list) option"
where
  "upward_walk r doDownward (Node l cs) =
     (if l = r then Some ([l], if doDownward then concat (map preorder cs) else [])
      else (case upward_walk_list r doDownward cs of
              None \<Rightarrow> None
            | Some (c, chain, rest) \<Rightarrow>
                Some (chain @ [l],
                      concat (map preorder (filter (\<lambda>x. root_of x \<noteq> root_of c) cs)) @ rest)))"
| "upward_walk_list r doDownward [] = None"
| "upward_walk_list r doDownward (c # cs) =
     (case upward_walk r doDownward c of
        Some (chain, rest) \<Rightarrow> Some (c, chain, rest)
      | None \<Rightarrow> upward_walk_list r doDownward cs)"

text \<open>The strict descendants of the link \<open>r\<close> in a tree.\<close>

definition descendants_of :: "ltree \<Rightarrow> LinkPtr \<Rightarrow> LinkPtr list" where
  "descendants_of t r =
     concat (map (\<lambda>s. if root_of s = r then concat (map preorder (children_of s)) else [])
                 (subtrees t))"

text \<open>
  \<open>extended xs k\<close> is the effect of a call on the traversal: \<open>xs\<close> appended, the counter
  raised by \<open>k\<close>. \<open>runs f xs k\<close> says that the call \<open>f\<close> returns with this effect whenever
  its fuel is large enough.
\<close>

definition extended :: "LinkPtr list \<Rightarrow> int \<Rightarrow> LinkTraverse \<Rightarrow> LinkTraverse" where
  "extended xs k t = t\<lparr>links := links t @ xs, numUpwardConnections := numUpwardConnections t + k\<rparr>"

definition runs :: "(nat \<Rightarrow> LinkTraverse \<Rightarrow> LinkTraverse option) \<Rightarrow> LinkPtr list \<Rightarrow> int \<Rightarrow> bool" where
  "runs f xs k = (\<exists>n. \<forall>m\<ge>n. \<forall>t. f m t = Some (extended xs k t))"

text \<open>Two vectors agree within \<open>eps\<close> in every coordinate.\<close>

definition within_tol :: "real \<Rightarrow> Vector3 \<Rightarrow> Vector3 \<Rightarrow> bool" where
  "within_tol eps x y =
     (case vsub x y of Vector3 dx dy dz \<Rightarrow> \<bar>dx\<bar> \<le> eps \<and> \<bar>dy\<bar> \<le> eps \<and> \<bar>dz\<bar> \<le> eps)"

text \<open>
  Test mechanisms. \<open>heap_revolute\<close> is the mechanism root (0) \<rightarrow> linkA (1) of the revolute
  scenario; \<open>heap_chain\<close> is the chain 0 \<rightarrow> 1 \<rightarrow> 2 with reference link 1, whose traversal
  has one upward connection.
\<close>

definition link0 :: Link where
  "link0 = \<lparr>parent = None, child = None, sibling = None, body = Some 0,
            jointType = FIXED_JOINT, Rb = Identity, b = Zero, a = Vector3 0 0 1,
            d = Vector3 0 0 1, q = 0, dq = 0, ddq = 0, R = Identity, p = Zero,
            w = Zero, v = Zero, dw = Zero, dv = Zero\<rparr>"

definition heap_revolute :: heap where
  "heap_revolute =
     (\<lambda>k. link0)
       (0 := link0\<lparr>child := Some 1\<rparr>,
        1 := link0\<lparr>parent := Some 0, jointType := ROTATIONAL_JOINT, q := pi / 2,
                  b := Vector3 1 0 0\<rparr>)"

definition traverse_revolute :: LinkTraverse where
  "traverse_revolute = \<lparr>links = [0, 1], numUpwardConnections = 0\<rparr>"



text \<open>
  \<open>returns g x\<close> says that the call \<open>g\<close> returns \<open>x\<close> whenever its fuel is large enough.
  \<open>before x xs\<close> is the entry that stands right before \<open>x\<close> in \<open>xs\<close>. \<open>down_result\<close> is
  what the search through the subtree \<open>s\<close>, entered from \<open>prev\<close>, finds for the front entry
  \<open>f\<close>; \<open>up_result\<close> is what the search from a link of the tree \<open>t\<close> finds, for the chain
  from that link to the root of \<open>t\<close> and the result \<open>ra\<close> of the search above the root.
\<close>

definition returns :: "(nat \<Rightarrow> 'a option) \<Rightarrow> 'a \<Rightarrow> bool" where
  "returns g x = (\<exists>n. \<forall>m\<ge>n. g m = Some x)"

fun before :: "'a \<Rightarrow> 'a list \<Rightarrow> 'a option" where
  "before x [] = None"
| "before x [y] = None"
| "before x (y # z # zs) = (if z = x then Some y else before x (z # zs))"

definition down_result :: "heap \<Rightarrow> ltree \<Rightarrow> LinkPtr option \<Rightarrow> LinkPtr \<Rightarrow> LinkPtr option \<times> bool" where
  "down_result h s prev f =
     (if f = root_of s then (prev, False)
      else if f \<in> set (preorder s) then (parent (h f), False)
      else (None, False))"

definition up_result :: "heap \<Rightarrow> ltree \<Rightarrow> LinkPtr list \<Rightarrow> LinkPtr \<Rightarrow> LinkPtr option \<times> bool
                 \<Rightarrow> LinkPtr option \<times> bool" where
  "up_result h t chain f ra =
     (if f \<in> set chain then (before f chain, True)
      else if fst ra \<noteq> None then ra
      else if f \<in> set (preorder t) then (parent (h f), False)
      else (None, False))"

text \<open>The mechanism 0 \<rightarrow> (1 \<rightarrow> 3, 2): link 0 has the children 1 and 2, link 1 the child 3.\<close>

definition tree_fork :: ltree where
  "tree_fork = Node 0 [Node 1 [Node 3 []], Node 2 []]"

definition heap_fork :: heap where
  "heap_fork =
     (\<lambda>k. link0)
       (0 := link0\<lparr>child := Some 1\<rparr>,
        1 := link0\<lparr>parent := Some 0, child := Some 3, sibling := Some 2\<rparr>,
        2 := link0\<lparr>parent := Some 0\<rparr>,
        3 := link0\<lparr>parent := Some 1\<rparr>)"

definition empty_traverse :: LinkTraverse where
  "empty_traverse = \<lparr>links = [], numUpwardConnections = 0\<rparr>"

section \<open>Forward kinematics in double precision\<close>

text \<open>
  A double is a real number of the form \<open>m * 2 ^ e\<close> with an integer \<open>m\<close> of at most 53
  bits. \<open>binary64 x\<close> is the double nearest to \<open>x\<close>, the one with the even significand
  when two are equally near (the rounding of IEEE 754 that C++ applies to the result of
  every \<open>+\<close>, \<open>-\<close> and \<open>*\<close> on doubles). \<open>pow2 e\<close> is the power \<open>2 ^ e\<close> for an integer
  \<open>e\<close>, \<open>rne\<close> rounds to the nearest integer, a tie to the even one, and \<open>exponent x\<close> is
  the \<open>e\<close> with \<open>2 ^ e \<le> |x| < 2 ^ (e + 1)\<close>. Below \<open>2 ^ -1022\<close> the doubles keep the
  spacing \<open>2 ^ -1074\<close>. A result of magnitude \<open>2 ^ 1024\<close> or more, an infinity in C++,
  is outside the model.
\<close>

fun pow2 :: "int \<Rightarrow> real" where
  "pow2 e = (if 0 \<le> e then 2 ^ nat e else 1 / 2 ^ nat (- e))"

definition rne :: "real \<Rightarrow> int" where
  "rne x = (let n = \<lfloor>x\<rfloor>; r = x - of_int n
            in if r < 1 / 2 then n else if 1 / 2 < r then n + 1
               else if even n then n else n + 1)"

function expo_up :: "real \<Rightarrow> int" where
  "expo_up x = (if 2 \<le> x then expo_up (x / 2) + 1 else 0)"
  by pat_completeness auto
termination
proof (relation "measure (\<lambda>x. nat \<lceil>x\<rceil>)")
  fix x :: real assume x: "2 \<le> x"
  have "\<lceil>x / 2\<rceil> \<le> \<lceil>x - 1\<rceil>" using x by (intro ceiling_mono) simp
  also have "\<dots> = \<lceil>x\<rceil> - 1" by simp
  finally have "\<lceil>x / 2\<rceil> < \<lceil>x\<rceil>" by simp
  moreover from x have "0 < \<lceil>x\<rceil>" by simp
  ultimately show "(x / 2, x) \<in> measure (\<lambda>x. nat \<lceil>x\<rceil>)" by simp
qed simp

function expo_down :: "real \<Rightarrow> int" where
  "expo_down x = (if 0 < x \<and> x < 1 then expo_down (2 * x) - 1 else 0)"
  by pat_completeness auto
termination
proof (relation "measure (\<lambda>x. nat \<lceil>1 / x\<rceil>)")
  fix x :: real assume x: "0 < x \<and> x < 1"
  then have y: "1 < 1 / x" by simp
  have "\<lceil>1 / (2 * x)\<rceil> < \<lceil>1 / x\<rceil>"
  proof (cases "2 \<le> 1 / x")
    case True
    have "1 / (2 * x) = (1 / x) / 2" by simp
    also have "\<dots> \<le> 1 / x - 1" using True by simp
    finally have "\<lceil>1 / (2 * x)\<rceil> \<le> \<lceil>1 / x - 1\<rceil>" by (rule ceiling_mono)
    then show ?thesis by simp
  next
    case False
    with y have "1 / (2 * x) \<le> 1" by (simp add: field_simps)
    then have "\<lceil>1 / (2 * x)\<rceil> \<le> 1" by (simp add: ceiling_le_iff)
    moreover from y have "1 < \<lceil>1 / x\<rceil>" by (simp add: less_ceiling_iff)
    ultimately show ?thesis by linarith
  qed
  moreover from x have "0 < \<lceil>1 / x\<rceil>" by simp
  ultimately show "(2 * x, x) \<in> measure (\<lambda>x. nat \<lceil>1 / x\<rceil>)" by simp
qed simp

definition exponent :: "real \<Rightarrow> int" where
  "exponent x = (if 1 \<le> \<bar>x\<bar> then expo_up \<bar>x\<bar> else expo_down \<bar>x\<bar>)"

definition binary64 :: "real \<Rightarrow> real" where
  "binary64 x =
     (if x = 0 then 0
      else let u = pow2 (max (exponent x) (- 1022) - 52)
           in of_int (rne (x / u)) * u)"
































section \<open>Properties of remove\<close>

lemma find_index_from_absent:
  "link \<notin> set xs \<Longrightarrow> find_index_from xs link i = -1"
  by (induction xs arbitrary: i) auto

lemma find_index_from_present:
  "link \<in> set xs \<Longrightarrow>
   \<exists>k. find_index_from xs link i = int (i + k) \<and> k < length xs \<and> xs ! k = link
       \<and> link \<notin> set (take k xs)"
proof (induction xs arbitrary: i)
  case Nil
  then show ?case by simp
next
  case (Cons x xs)
  show ?case
  proof (cases "x = link")
    case True
    then have "find_index_from (x # xs) link i = int (i + 0) \<and> 0 < length (x # xs)
        \<and> (x # xs) ! 0 = link \<and> link \<notin> set (take 0 (x # xs))"
      by simp
    then show ?thesis by blast
  next
    case False
    with Cons.prems have "link \<in> set xs" by simp
    from Cons.IH [OF this, of "Suc i"] obtain k where
      k: "find_index_from xs link (Suc i) = int (Suc i + k)" "k < length xs"
         "xs ! k = link" "link \<notin> set (take k xs)"
      by blast
    with False have "find_index_from (x # xs) link i = int (i + Suc k)
        \<and> Suc k < length (x # xs) \<and> (x # xs) ! Suc k = link
        \<and> link \<notin> set (take (Suc k) (x # xs))"
      by simp
    then show ?thesis by blast
  qed
qed

text \<open>
  C6. \<open>remove link\<close> returns true exactly when \<open>link\<close> is in the sequence. When it is
  absent the traversal is returned as it was. When it is present, its first occurrence, at
  index \<open>i\<close>, is the single entry erased, and the counter is decremented if and only if
  \<open>i \<le> U\<close>.
\<close>

theorem remove_spec:
  "fst (remove link t) = (link \<in> set (links t)) \<and>
   (link \<notin> set (links t) \<longrightarrow> snd (remove link t) = t) \<and>
   (link \<in> set (links t) \<longrightarrow>
      (\<exists>i. i < length (links t) \<and> links t ! i = link \<and> link \<notin> set (take i (links t)) \<and>
           links (snd (remove link t)) = take i (links t) @ drop (Suc i) (links t) \<and>
           length (links (snd (remove link t))) = length (links t) - 1 \<and>
           numUpwardConnections (snd (remove link t)) =
             (if int i \<le> numUpwardConnections t
              then numUpwardConnections t - 1 else numUpwardConnections t)))"
proof (cases "link \<in> set (links t)")
  case False
  then show ?thesis
    by (simp add: remove_def find_index_from_absent)
next
  case True
  from find_index_from_present [OF True, of 0] obtain k where
    k: "find_index_from (links t) link 0 = int k" "k < length (links t)"
       "links t ! k = link" "link \<notin> set (take k (links t))"
    by auto
  have r: "remove link t =
      (True, (if int k \<le> numUpwardConnections t
              then t\<lparr>numUpwardConnections := numUpwardConnections t - 1\<rparr>
              else t)\<lparr>links := take k (links t) @ drop (Suc k) (links t)\<rparr>)"
    using k(1) by (simp add: remove_def erase_def Let_def)
  have "k < length (links t) \<and> links t ! k = link \<and> link \<notin> set (take k (links t)) \<and>
        links (snd (remove link t)) = take k (links t) @ drop (Suc k) (links t) \<and>
        length (links (snd (remove link t))) = length (links t) - 1 \<and>
        numUpwardConnections (snd (remove link t)) =
          (if int k \<le> numUpwardConnections t
           then numUpwardConnections t - 1 else numUpwardConnections t)"
    using k(2,3,4) by (simp add: r)
  then have "\<exists>i. i < length (links t) \<and> links t ! i = link \<and> link \<notin> set (take i (links t)) \<and>
           links (snd (remove link t)) = take i (links t) @ drop (Suc i) (links t) \<and>
           length (links (snd (remove link t))) = length (links t) - 1 \<and>
           numUpwardConnections (snd (remove link t)) =
             (if int i \<le> numUpwardConnections t
              then numUpwardConnections t - 1 else numUpwardConnections t)"
    by blast
  with True r show ?thesis by simp
qed

theorem remove_spec_witness:
  "fst (remove 7 \<lparr>links = [5, 7, 9], numUpwardConnections = 1\<rparr>)
   \<and> snd (remove 7 \<lparr>links = [5, 7, 9], numUpwardConnections = 1\<rparr>)
       = \<lparr>links = [5, 9], numUpwardConnections = 0\<rparr>
   \<and> \<not> fst (remove 8 \<lparr>links = [5, 7, 9], numUpwardConnections = 1\<rparr>)
   \<and> snd (remove 8 \<lparr>links = [5, 7, 9], numUpwardConnections = 1\<rparr>)
       = \<lparr>links = [5, 7, 9], numUpwardConnections = 1\<rparr>"
  using remove_spec [of 7 "\<lparr>links = [5, 7, 9], numUpwardConnections = 1\<rparr>"]
        remove_spec [of 8 "\<lparr>links = [5, 7, 9], numUpwardConnections = 1\<rparr>"]
  by (simp add: remove_def erase_def)

text \<open>
  C10. When the counter is 0 and \<open>L\<close> is the front entry, \<open>remove L\<close> returns true, erases
  the front entry and leaves the counter at -1: \<open>remove\<close> does not keep the counter
  non-negative.
\<close>

theorem remove_front_negative:
  "links t = L # rest \<Longrightarrow> numUpwardConnections t = 0 \<Longrightarrow>
   fst (remove L t) \<and> links (snd (remove L t)) = rest
   \<and> numUpwardConnections (snd (remove L t)) = -1"
  by (simp add: remove_def erase_def)

theorem remove_front_negative_witness:
  "links \<lparr>links = [4, 2], numUpwardConnections = 0\<rparr> = 4 # [2]
   \<and> numUpwardConnections \<lparr>links = [4, 2], numUpwardConnections = 0\<rparr> = 0
   \<and> fst (remove 4 \<lparr>links = [4, 2], numUpwardConnections = 0\<rparr>)
   \<and> links (snd (remove 4 \<lparr>links = [4, 2], numUpwardConnections = 0\<rparr>)) = [2]
   \<and> numUpwardConnections (snd (remove 4 \<lparr>links = [4, 2], numUpwardConnections = 0\<rparr>)) = -1"
  using remove_front_negative [of "\<lparr>links = [4, 2], numUpwardConnections = 0\<rparr>" 4 "[2]"]
  by simp

section \<open>Properties of the forward kinematics\<close>


lemma mmul_Identity [simp]: "mmul A Identity = A" "mmul Identity A = A"
  by (cases A; simp add: Identity_def)+


lemma keeps_refl [simp]: "keeps cv ca x x"
  by (simp add: keeps_def static_eq_def velocity_eq_def acceleration_eq_def)


lemmas set_defs = set_R_def set_p_def set_w_def set_v_def set_dw_def set_dv_def

lemmas upward_defs = upward_step_def upward_rotational_def upward_slide_def upward_fixed_def
lemmas downward_defs = downward_rotational_def downward_slide_def downward_fixed_def



















declare upward_loop.simps [simp del] downward_loop.simps [simp del]










lemma vadd_vsub_cancel [simp]: "vadd (vsub x y) y = x"
  by (cases x; cases y) simp

lemma smul_zero [simp]: "smul 0 x = Vector3 0 0 0"
  by (cases x) simp

lemma vadd_zero [simp]: "vadd x (Vector3 0 0 0) = x" "vsub x (Vector3 0 0 0) = x"
  by (cases x; simp)+




lemma downward_rotational_fields:
  fixes cv ca :: bool and h :: heap and link par :: LinkPtr
  assumes "par \<noteq> link"
  defines "n \<equiv> downward_rotational cv ca link par h link"
  defines "arm \<equiv> mvmul (R (h par)) (b (h link))"
  defines "sw \<equiv> mvmul (R (h par)) (mvmul (Rb (h link)) (a (h link)))"
  shows "R n = mmul (mmul (R (h par)) (Rb (h link))) (AngleAxisd (q (h link)) (a (h link)))"
    and "p n = vadd (p (h par)) arm"
    and "cv \<Longrightarrow> w n = vadd (w (h par)) (smul (dq (h link)) sw)"
    and "cv \<Longrightarrow> v n = vadd (v (h par)) (cross (w (h par)) arm)"
    and "cv \<Longrightarrow> ca \<Longrightarrow> dw n =
           vadd (vadd (dw (h par)) (smul (dq (h link)) (cross (w (h par)) sw))) (smul (ddq (h link)) sw)"
    and "cv \<Longrightarrow> ca \<Longrightarrow> dv n =
           vadd (vadd (dv (h par)) (cross (w (h par)) (cross (w (h par)) arm))) (cross (dw (h par)) arm)"
  using assms(1) unfolding n_def arm_def sw_def
  by (simp_all add: downward_rotational_def set_defs Let_def)


















lemma pose_of_revolute_scenario:
  assumes t: "links t = [rootLink, linkA]" "numUpwardConnections t = 0"
    and ne: "rootLink \<noteq> linkA"
    and l: "parent (h linkA) = Some rootLink" "jointType (h linkA) = ROTATIONAL_JOINT"
       "a (h linkA) = Vector3 0 0 1" "q (h linkA) = pi / 2" "b (h linkA) = Vector3 1 0 0"
       "Rb (h linkA) = Identity"
    and r: "R (h rootLink) = Identity" "p (h rootLink) = Vector3 0 0 0"
  shows "\<exists>h'. calcForwardKinematics t cv ca h = Inr h' \<and>
              R (h' linkA) = Matrix3 0 (- 1) 0  1 0 0  0 0 1 \<and>
              p (h' linkA) = Vector3 1 0 0"
proof -
  let ?h1 = "downward_rotational cv ca linkA rootLink h"
  have u: "upward_loop t cv ca 1 h = Inr (1, h)"
    by (subst upward_loop.simps) (simp add: t)
  have s: "downward_step cv ca linkA h = Inr ?h1"
    using l by (simp add: downward_step_def)
  have d2: "downward_loop t cv ca (Suc 1) ?h1 = Inr ?h1"
    by (subst downward_loop.simps) (simp add: t)
  have d: "downward_loop t cv ca 1 h = Inr ?h1"
    using s d2 by (subst downward_loop.simps) (simp add: t)
  have run: "calcForwardKinematics t cv ca h = Inr ?h1"
    using u d by (simp add: calcForwardKinematics_def)
  have "R (?h1 linkA) = Matrix3 0 (- 1) 0  1 0 0  0 0 1"
    by (simp add: downward_rotational_fields [OF ne] Identity_def l r)
  moreover have "p (?h1 linkA) = Vector3 1 0 0"
    by (simp add: downward_rotational_fields [OF ne] Identity_def l r)
  ultimately show ?thesis using run by blast
qed

text \<open>
  C3, amended. In the scenario root \<rightarrow> linkA (revolute about (0,0,1), \<open>q = \<pi>/2\<close>,
  \<open>b = (1,0,0)\<close>, \<open>Rb\<close> the identity, root at the identity and the origin),
  \<open>calcForwardKinematics\<close> returns with \<open>linkA.R\<close> the rotation by 90 degrees about Z and
  \<open>linkA.p = p_root + R_root * (1,0,0) = (1,0,0)\<close>.
\<close>

theorem revolute_scenario:
  assumes "links t = [rootLink, linkA]" "numUpwardConnections t = 0"
    and "rootLink \<noteq> linkA"
    and "parent (h linkA) = Some rootLink" "jointType (h linkA) = ROTATIONAL_JOINT"
       "a (h linkA) = Vector3 0 0 1" "q (h linkA) = pi / 2" "b (h linkA) = Vector3 1 0 0"
       "Rb (h linkA) = Identity"
    and "R (h rootLink) = Identity" "p (h rootLink) = Vector3 0 0 0"
  shows "\<exists>h'. calcForwardKinematics t calcVelocity calcAcceleration h = Inr h' \<and>
              R (h' linkA) = Matrix3 0 (- 1) 0  1 0 0  0 0 1 \<and>
              p (h' linkA) = Vector3 1 0 0"
  using assms by (rule pose_of_revolute_scenario)

lemma heap_revolute_simps:
  "heap_revolute 0 = link0\<lparr>child := Some 1\<rparr>"
  "heap_revolute (Suc 0) = link0\<lparr>parent := Some 0, jointType := ROTATIONAL_JOINT, q := pi / 2,
                  b := Vector3 1 0 0\<rparr>"
  by (simp_all add: heap_revolute_def)

lemma revolute_traversal:
  "find_links (Suc (Suc (Suc 0))) heap_revolute 0 True True empty_traverse = Some traverse_revolute"
  by (simp add: find_links_def empty_traverse_def traverse_revolute_def heap_revolute_simps
      link0_def Let_def)

theorem revolute_scenario_witness:
  "find_links (Suc (Suc (Suc 0))) heap_revolute 0 True True empty_traverse = Some traverse_revolute \<and>
   (\<exists>h'. calcForwardKinematics traverse_revolute True True heap_revolute = Inr h' \<and>
        R (h' 1) = Matrix3 0 (- 1) 0  1 0 0  0 0 1 \<and> p (h' 1) = Vector3 1 0 0)"
  using revolute_scenario [of traverse_revolute 0 1 heap_revolute True True] revolute_traversal
  by (simp add: traverse_revolute_def heap_revolute_simps link0_def Identity_def Zero_def)

text \<open>
  C3 as stated fails: in the scenario, with the traversal that \<open>find\<close> builds from the
  root, the position of linkA is not within 1e-9 of (0,1,0).
\<close>

theorem revolute_scenario_counterexample:
  "find_links (Suc (Suc (Suc 0))) heap_revolute 0 True True empty_traverse = Some traverse_revolute \<and>
   (\<exists>h'. calcForwardKinematics traverse_revolute False False heap_revolute = Inr h' \<and>
        \<not> within_tol (1 / 10 ^ 9) (p (h' 1)) (Vector3 0 1 0))"
proof -
  have "\<exists>h'. calcForwardKinematics traverse_revolute False False heap_revolute = Inr h' \<and>
              R (h' 1) = Matrix3 0 (- 1) 0  1 0 0  0 0 1 \<and>
              p (h' 1) = Vector3 1 0 0"
    by (rule pose_of_revolute_scenario [of traverse_revolute 0 1 heap_revolute])
       (simp_all add: traverse_revolute_def heap_revolute_simps link0_def Identity_def Zero_def)
  then obtain h' where
    "calcForwardKinematics traverse_revolute False False heap_revolute = Inr h'"
    "p (h' 1) = Vector3 1 0 0"
    by blast
  moreover have "\<not> within_tol (1 / 10 ^ 9) (Vector3 1 0 0) (Vector3 0 1 0)"
    by (simp add: within_tol_def)
  ultimately have "\<exists>h'. calcForwardKinematics traverse_revolute False False heap_revolute = Inr h' \<and>
        \<not> within_tol (1 / 10 ^ 9) (p (h' 1)) (Vector3 0 1 0)"
    by auto
  with revolute_traversal show ?thesis by (rule conjI)
qed









section \<open>Properties of the forward kinematics in double precision\<close>

declare expo_up.simps [simp del] expo_down.simps [simp del]

lemma expo_up_eq: "2 ^ n \<le> x \<Longrightarrow> x < 2 * 2 ^ n \<Longrightarrow> expo_up x = int n"
proof (induction n arbitrary: x)
  case 0
  then show ?case by (simp add: expo_up.simps [of x])
next
  case (Suc n)
  from Suc.prems have "2 * 2 ^ n \<le> x" by simp
  moreover have "(1::real) \<le> 2 ^ n" by simp
  ultimately have "2 \<le> x" by linarith
  from Suc.prems have "expo_up (x / 2) = int n"
    by (intro Suc.IH) simp_all
  then show ?case using \<open>2 \<le> x\<close> by (simp add: expo_up.simps [of x])
qed

lemma expo_down_eq: "1 / 2 ^ n \<le> x \<Longrightarrow> x < 2 / 2 ^ n \<Longrightarrow> expo_down x = - int n"
proof (induction n arbitrary: x)
  case 0
  then show ?case by (simp add: expo_down.simps [of x])
next
  case (Suc n)
  have "(0::real) < 1 / 2 ^ Suc n" by simp
  then have "0 < x" using Suc.prems(1) by (rule less_le_trans)
  moreover from Suc.prems(2) have "x < 1 / 2 ^ n" by simp
  then have "x < 1" by (rule less_le_trans) simp
  ultimately have "0 < x \<and> x < 1" by simp
  moreover from Suc.prems have "expo_down (2 * x) = - int n"
    by (intro Suc.IH) (simp_all add: field_simps)
  ultimately show ?case by (simp add: expo_down.simps [of x])
qed

lemma exponent_eq:
  assumes "pow2 e \<le> \<bar>x\<bar>" and "\<bar>x\<bar> < pow2 (e + 1)"
  shows "exponent x = e"
proof (cases "0 \<le> e")
  case True
  with assms have b: "2 ^ nat e \<le> \<bar>x\<bar>" "\<bar>x\<bar> < 2 * 2 ^ nat e"
    by (simp_all add: nat_add_distrib)
  from b(1) have "1 \<le> \<bar>x\<bar>"
    using one_le_power [of "2::real" "nat e"] by linarith
  with expo_up_eq [OF b] True show ?thesis by (simp add: exponent_def)
next
  case False
  then have e: "e + 1 \<le> 0" by simp
  have n: "nat (- e) = Suc (nat (- (e + 1)))" using False by simp
  from assms False have b: "1 / 2 ^ nat (- e) \<le> \<bar>x\<bar>" by simp
  have p: "pow2 (e + 1) = 2 / 2 ^ nat (- e)"
    using e unfolding n by (cases "e + 1 = 0") simp_all
  with assms(2) have c: "\<bar>x\<bar> < 2 / 2 ^ nat (- e)" by simp
  have "(2::real) / 2 ^ nat (- e) \<le> 1" unfolding n by simp
  with c have "\<not> 1 \<le> \<bar>x\<bar>" by linarith
  with expo_down_eq [OF b c] False show ?thesis by (simp add: exponent_def)
qed

lemma binary64_eq:
  assumes "pow2 e \<le> \<bar>x\<bar>" and "\<bar>x\<bar> < pow2 (e + 1)"
  shows "binary64 x = of_int (rne (x / pow2 (max e (- 1022) - 52))) * pow2 (max e (- 1022) - 52)"
proof -
  have "0 < pow2 e" by simp
  with assms(1) have "x \<noteq> 0" by auto
  with exponent_eq [OF assms] show ?thesis by (simp add: binary64_def Let_def)
qed


lemma binary64_0 [simp]: "binary64 0 = 0"
  by (simp add: binary64_def)

lemma binary64_1 [simp]: "binary64 1 = 1"
  using binary64_eq [of 0 1] by (simp add: rne_def)











































section \<open>Properties of the traversal builder\<close>

lemma extended_extended [simp]: "extended ys j (extended xs k t) = extended (xs @ ys) (k + j) t"
  by (simp add: extended_def)

lemma extended_Nil [simp]: "extended [] 0 t = t"
  by (simp add: extended_def)

lemma runsI: "(\<And>m t. n \<le> m \<Longrightarrow> f m t = Some (extended xs k t)) \<Longrightarrow> runs f xs k"
  unfolding runs_def by blast

lemma traverse_Suc_stop:
  assumes "\<not> (doUpward \<and> (\<exists>par. parent (h link) = Some par \<and> body (h par) = body (h link)))"
  shows "traverse (Suc n) h link doUpward doDownward isUpward prev t =
           (if doDownward
            then traverse_children n h (child (h link)) prev
                   (extended [link] (if isUpward then 1 else 0) t)
            else Some (extended [link] (if isUpward then 1 else 0) t))"
  using assms by (cases "parent (h link)") (auto simp add: Let_def extended_def)

lemma traverse_Suc_up:
  assumes "doUpward" and "parent (h link) = Some par" and "body (h par) = body (h link)"
  shows "traverse (Suc n) h link doUpward doDownward isUpward prev t =
           (case traverse n h par True True True (Some link)
                   (extended [link] (if isUpward then 1 else 0) t) of
              None \<Rightarrow> None
            | Some t3 \<Rightarrow>
                if doDownward then traverse_children n h (child (h link)) prev t3 else Some t3)"
  using assms by (auto simp add: Let_def extended_def)

lemma traverse_children_filter_runs:
  assumes "sibling_chain h par cs"
    and "\<And>c. c \<in> set cs \<Longrightarrow> runs (\<lambda>m. traverse m h (root_of c) False True False None) (preorder c) 0"
  shows "runs (\<lambda>m. traverse_children m h (first_ptr cs) prev)
              (concat (map preorder (filter (\<lambda>c. Some (root_of c) \<noteq> prev) cs))) 0"
  using assms
proof (induction cs)
  case Nil
  show ?case by (rule runsI [of 0]) simp
next
  case (Cons c cs)
  from Cons.prems(1) have sib: "sibling (h (root_of c)) = first_ptr cs"
    and ch: "sibling_chain h par cs" by simp_all
  from Cons.IH [OF ch] Cons.prems(2)
  have "runs (\<lambda>m. traverse_children m h (first_ptr cs) prev)
              (concat (map preorder (filter (\<lambda>c. Some (root_of c) \<noteq> prev) cs))) 0"
    by simp
  then obtain n1 where n1: "\<forall>m\<ge>n1. \<forall>t. traverse_children m h (first_ptr cs) prev t =
      Some (extended (concat (map preorder (filter (\<lambda>c. Some (root_of c) \<noteq> prev) cs))) 0 t)"
    unfolding runs_def by blast
  from Cons.prems(2) [of c] obtain n2 where
    n2: "\<forall>m\<ge>n2. \<forall>t. traverse m h (root_of c) False True False None t = Some (extended (preorder c) 0 t)"
    unfolding runs_def by auto
  show ?case
  proof (rule runsI [of "Suc (max n1 n2)"])
    fix m t
    assume "Suc (max n1 n2) \<le> m"
    then obtain m' where m: "m = Suc m'" "n1 \<le> m'" "n2 \<le> m'"
      by (cases m) auto
    show "traverse_children m h (first_ptr (c # cs)) prev t =
          Some (extended (concat (map preorder (filter (\<lambda>c. Some (root_of c) \<noteq> prev) (c # cs)))) 0 t)"
      using m n1 n2 sib by simp
  qed
qed

lemma traverse_down_runs:
  "subtree_ok h t \<Longrightarrow> runs (\<lambda>m. traverse m h (root_of t) False True False None) (preorder t) 0"
proof (induction t)
  case (Node l cs)
  from Node.prems have ch: "child (h l) = first_ptr cs" and sc: "sibling_chain h l cs"
    and sub: "\<And>c. c \<in> set cs \<Longrightarrow> subtree_ok h c" by simp_all
  have "runs (\<lambda>m. traverse_children m h (first_ptr cs) None)
              (concat (map preorder (filter (\<lambda>c. Some (root_of c) \<noteq> None) cs))) 0"
    by (rule traverse_children_filter_runs [OF sc]) (simp add: Node.IH sub)
  then obtain n where n: "\<forall>m\<ge>n. \<forall>t. traverse_children m h (first_ptr cs) None t =
      Some (extended (concat (map preorder cs)) 0 t)"
    unfolding runs_def by auto
  show ?case
  proof (rule runsI [of "Suc n"])
    fix m t
    assume "Suc n \<le> m"
    then obtain m' where m: "m = Suc m'" "n \<le> m'" by (cases m) auto
    show "traverse m h (root_of (Node l cs)) False True False None t =
          Some (extended (preorder (Node l cs)) 0 t)"
      using m n ch by (simp add: traverse_Suc_stop del: traverse.simps)
  qed
qed

lemma traverse_Suc_upward_part:
  "traverse (Suc n) h link True doDownward isUpward prev t =
     (case upward_part n h link (extended [link] (if isUpward then 1 else 0) t) of
        None \<Rightarrow> None
      | Some t3 \<Rightarrow>
          if doDownward then traverse_children n h (child (h link)) prev t3 else Some t3)"
  by (cases "parent (h link)") (auto simp add: Let_def extended_def upward_part_def)

lemma upward_part_step:
  "parent (h link) = Some par \<Longrightarrow> body (h link) = body (h par) \<Longrightarrow>
   upward_part n h link t = traverse n h par True True True (Some link) t"
  by (simp add: upward_part_def)

lemma upward_part_stop:
  "(case parent (h link) of None \<Rightarrow> True | Some par \<Rightarrow> body (h par) \<noteq> body (h link)) \<Longrightarrow>
   upward_part n h link t = Some t"
  by (simp add: upward_part_def split: option.splits)

lemma upward_walk_list_Some:
  "upward_walk_list r dd cs = Some (c, chain, rest) \<Longrightarrow>
   c \<in> set cs \<and> upward_walk r dd c = Some (chain, rest)"
  by (induction cs) (auto split: option.splits)

lemma sibling_chain_parent:
  "sibling_chain h par cs \<Longrightarrow> c \<in> set cs \<Longrightarrow> parent (h (root_of c)) = Some par"
  by (induction cs) auto

lemma root_in_preorder [simp]: "root_of t \<in> set (preorder t)"
  by (cases t) simp

lemma distinct_child:
  "distinct (preorder (Node l cs)) \<Longrightarrow> c \<in> set cs \<Longrightarrow> distinct (preorder c)"
  by (auto simp add: distinct_concat_iff)

lemma traverse_up_runs:
  assumes "subtree_ok h t" and "distinct (preorder t)"
    and "\<forall>x \<in> set (preorder t). body (h x) = bdy"
    and "upward_walk r dd t = Some (chain, rest)"
    and "runs (\<lambda>m. upward_part m h (root_of t)) upper ku"
  shows "runs (\<lambda>m. traverse m h r True dd isUp None) (chain @ upper @ rest)
              ((if isUp then 1 else 0) + int (length chain) - 1 + ku)"
  using assms
proof (induction t arbitrary: chain rest upper ku)
  case (Node l cs)
  from Node.prems(1) have ch: "child (h l) = first_ptr cs" and sc: "sibling_chain h l cs"
    and sub: "\<And>c. c \<in> set cs \<Longrightarrow> subtree_ok h c" by simp_all
  from Node.prems(5) obtain ne where
    ne: "\<forall>m\<ge>ne. \<forall>t. upward_part m h l t = Some (extended upper ku t)"
    unfolding runs_def by auto
  have down: "runs (\<lambda>m. traverse_children m h (first_ptr cs) prev)
              (concat (map preorder (filter (\<lambda>c. Some (root_of c) \<noteq> prev) cs))) 0" for prev
    by (rule traverse_children_filter_runs [OF sc]) (simp add: traverse_down_runs sub)
  show ?case
  proof (cases "l = r")
    case True
    with Node.prems(4) have cr: "chain = [r]"
      "rest = (if dd then concat (map preorder cs) else [])" by simp_all
    from down [of None] obtain nd where
      nd: "\<forall>m\<ge>nd. \<forall>t. traverse_children m h (first_ptr cs) None t =
            Some (extended (concat (map preorder cs)) 0 t)"
      unfolding runs_def by auto
    show ?thesis
    proof (rule runsI [of "Suc (max ne nd)"])
      fix m t
      assume "Suc (max ne nd) \<le> m"
      then obtain m' where m: "m = Suc m'" "ne \<le> m'" "nd \<le> m'" by (cases m) auto
      show "traverse m h r True dd isUp None t =
            Some (extended (chain @ upper @ rest)
                    ((if isUp then 1 else 0) + int (length chain) - 1 + ku) t)"
        using m ne nd ch True cr
        by (simp add: traverse_Suc_upward_part del: traverse.simps)
    qed
  next
    case False
    with Node.prems(4) obtain c chainc restc where
      wl: "upward_walk_list r dd cs = Some (c, chainc, restc)" and
      cr: "chain = chainc @ [l]"
          "rest = concat (map preorder (filter (\<lambda>x. root_of x \<noteq> root_of c) cs)) @ restc"
      by (auto split: option.splits)
    from upward_walk_list_Some [OF wl] have c: "c \<in> set cs"
      and wc: "upward_walk r dd c = Some (chainc, restc)" by simp_all
    let ?others = "concat (map preorder (filter (\<lambda>x. root_of x \<noteq> root_of c) cs))"
    from sibling_chain_parent [OF sc c] have pc: "parent (h (root_of c)) = Some l" .
    from Node.prems(3) c have bc: "body (h (root_of c)) = body (h l)"
      "\<forall>x \<in> set (preorder c). body (h x) = bdy"
      by auto
    from down [of "Some (root_of c)"] obtain nd where
      nd: "\<forall>m\<ge>nd. \<forall>t. traverse_children m h (first_ptr cs) (Some (root_of c)) t =
            Some (extended ?others 0 t)"
      unfolding runs_def by auto
    have env: "runs (\<lambda>m. upward_part m h (root_of c)) (l # upper @ ?others) (1 + ku)"
    proof (rule runsI [of "Suc (max ne nd)"])
      fix m t
      assume "Suc (max ne nd) \<le> m"
      then obtain m' where m: "m = Suc m'" "ne \<le> m'" "nd \<le> m'" by (cases m) auto
      show "upward_part m h (root_of c) t = Some (extended (l # upper @ ?others) (1 + ku) t)"
        using m ne nd ch
        by (simp add: upward_part_step [OF pc bc(1)] traverse_Suc_upward_part del: traverse.simps)
    qed
    from Node.IH [OF c sub [OF c] distinct_child [OF Node.prems(2) c] bc(2) wc env]
    show ?thesis by (cases isUp) (simp_all add: cr add_ac)
  qed
qed

lemma upward_walk_mem:
  "upward_walk r dd t = Some (chain, rest) \<Longrightarrow> r \<in> set (preorder t)"
proof (induction t arbitrary: chain rest)
  case (Node l cs)
  show ?case
  proof (cases "l = r")
    case True
    then show ?thesis by simp
  next
    case False
    with Node.prems obtain c chainc restc where
      "upward_walk_list r dd cs = Some (c, chainc, restc)"
      by (auto split: option.splits)
    from upward_walk_list_Some [OF this] Node.IH show ?thesis by auto
  qed
qed

lemma upward_walk_list_None:
  "upward_walk_list r dd cs = None \<Longrightarrow> c \<in> set cs \<Longrightarrow> upward_walk r dd c = None"
  by (induction cs) (auto split: option.splits)

lemma upward_walk_total:
  "r \<in> set (preorder t) \<Longrightarrow> \<exists>chain rest. upward_walk r dd t = Some (chain, rest)"
proof (induction t)
  case (Node l cs)
  show ?case
  proof (cases "l = r")
    case True
    then show ?thesis by simp
  next
    case False
    with Node.prems obtain c where c: "c \<in> set cs" "r \<in> set (preorder c)" by auto
    from Node.IH [OF c] obtain chainc restc where "upward_walk r dd c = Some (chainc, restc)"
      by blast
    with c(1) have "upward_walk_list r dd cs \<noteq> None"
      using upward_walk_list_None by fastforce
    with False show ?thesis by (auto split: option.splits)
  qed
qed

lemma upward_walk_chain:
  "upward_walk r dd t = Some (chain, rest) \<Longrightarrow>
   chain \<noteq> [] \<and> hd chain = r \<and> last chain = root_of t"
proof (induction t arbitrary: chain rest)
  case (Node l cs)
  show ?case
  proof (cases "l = r")
    case True
    with Node.prems show ?thesis by auto
  next
    case False
    with Node.prems obtain c chainc restc where
      wl: "upward_walk_list r dd cs = Some (c, chainc, restc)" and cr: "chain = chainc @ [l]"
      by (auto split: option.splits)
    from upward_walk_list_Some [OF wl] Node.IH have "chainc \<noteq> [] \<and> hd chainc = r"
      by blast
    with cr show ?thesis by simp
  qed
qed

lemma upward_walk_parents:
  "subtree_ok h t \<Longrightarrow> upward_walk r dd t = Some (chain, rest) \<Longrightarrow> Suc i < length chain \<Longrightarrow>
   parent (h (chain ! i)) = Some (chain ! Suc i)"
proof (induction t arbitrary: chain rest)
  case (Node l cs)
  show ?case
  proof (cases "l = r")
    case True
    with Node.prems show ?thesis by auto
  next
    case False
    with Node.prems(2) obtain c chainc restc where
      wl: "upward_walk_list r dd cs = Some (c, chainc, restc)" and cr: "chain = chainc @ [l]"
      by (auto split: option.splits)
    from upward_walk_list_Some [OF wl] have c: "c \<in> set cs"
      and wc: "upward_walk r dd c = Some (chainc, restc)" by simp_all
    from Node.prems(1) c have okc: "subtree_ok h c" and sc: "sibling_chain h l cs" by simp_all
    from upward_walk_chain [OF wc] have ch: "chainc \<noteq> []" "last chainc = root_of c" by simp_all
    show ?thesis
    proof (cases "Suc i < length chainc")
      case True
      from Node.IH [OF c okc wc True] True show ?thesis by (simp add: cr nth_append)
    next
      case False
      with Node.prems(3) cr have i: "Suc i = length chainc" by simp
      then have "i = length chainc - 1" by simp
      then have "chainc ! i = last chainc" using ch(1) by (simp add: last_conv_nth)
      with i ch(2) sibling_chain_parent [OF sc c] show ?thesis
        by (simp add: cr nth_append)
    qed
  qed
qed

lemma concat_map_concat:
  "concat (map g (concat xss)) = concat (map (\<lambda>xs. concat (map g xs)) xss)"
  by (induction xss) simp_all

lemma descendants_of_Node:
  "descendants_of (Node l cs) r =
     (if l = r then concat (map preorder cs) else []) @ concat (map (\<lambda>c. descendants_of c r) cs)"
  by (simp add: descendants_of_def concat_map_concat comp_def)

lemma descendants_of_absent: "r \<notin> set (preorder t) \<Longrightarrow> descendants_of t r = []"
proof (induction t)
  case (Node l cs)
  then have "\<And>c. c \<in> set cs \<Longrightarrow> descendants_of c r = []" by auto
  with Node.prems show ?case by (simp add: descendants_of_Node)
qed

lemma distinct_children_split:
  assumes "distinct (concat (map preorder cs))" and "cs = xs @ c # ys"
  shows "filter (\<lambda>x. root_of x \<noteq> root_of c) cs = xs @ ys"
    and "\<And>x. x \<in> set xs \<union> set ys \<Longrightarrow> set (preorder x) \<inter> set (preorder c) = {}"
proof -
  define A where "A = concat (map preorder xs)"
  define B where "B = concat (map preorder ys)"
  from assms have "distinct (A @ preorder c @ B)"
    by (simp add: A_def B_def)
  then have AB: "set A \<inter> set (preorder c) = {}" "set B \<inter> set (preorder c) = {}"
    by (simp_all only: distinct_append set_append) blast+
  have sub: "set (preorder x) \<subseteq> set A \<union> set B" if "x \<in> set xs \<union> set ys" for x
    using that unfolding A_def B_def set_concat by auto
  show dj: "set (preorder x) \<inter> set (preorder c) = {}" if "x \<in> set xs \<union> set ys" for x
    using sub [OF that] AB by blast
  have ne: "root_of x \<noteq> root_of c" if "x \<in> set xs \<union> set ys" for x
  proof
    assume "root_of x = root_of c"
    then have "root_of c \<in> set (preorder x) \<inter> set (preorder c)"
      using root_in_preorder [of x] root_in_preorder [of c] by simp
    with dj [OF that] show False by simp
  qed
  have "filter (\<lambda>x. root_of x \<noteq> root_of c) xs = xs" "filter (\<lambda>x. root_of x \<noteq> root_of c) ys = ys"
    using ne by (simp_all add: filter_id_conv)
  then show "filter (\<lambda>x. root_of x \<noteq> root_of c) cs = xs @ ys"
    by (simp add: assms(2))
qed

lemma upward_walk_mset:
  "distinct (preorder t) \<Longrightarrow> upward_walk r dd t = Some (chain, rest) \<Longrightarrow>
   mset chain + mset rest + (if dd then {#} else mset (descendants_of t r)) = mset (preorder t)"
proof (induction t arbitrary: chain rest)
  case (Node l cs)
  show ?case
  proof (cases "l = r")
    case True
    with Node.prems(1) have "\<And>c. c \<in> set cs \<Longrightarrow> r \<notin> set (preorder c)" by auto
    then have "concat (map (\<lambda>c. descendants_of c r) cs) = []"
      by (simp add: descendants_of_absent)
    with True Node.prems(2) show ?thesis
      by (auto simp add: descendants_of_Node)
  next
    case False
    with Node.prems(2) obtain c chainc restc where
      wl: "upward_walk_list r dd cs = Some (c, chainc, restc)" and
      cr: "chain = chainc @ [l]"
          "rest = concat (map preorder (filter (\<lambda>x. root_of x \<noteq> root_of c) cs)) @ restc"
      by (auto split: option.splits)
    from upward_walk_list_Some [OF wl] have c: "c \<in> set cs"
      and wc: "upward_walk r dd c = Some (chainc, restc)" by simp_all
    from c obtain xs ys where sp: "cs = xs @ c # ys" by (auto simp add: in_set_conv_decomp)
    from Node.prems(1) have dc: "distinct (concat (map preorder cs))" by simp
    note split = distinct_children_split [OF dc sp]
    from upward_walk_mem [OF wc] split(2) have "r \<notin> set (preorder x)" if "x \<in> set xs \<union> set ys" for x
      using that by blast
    then have de: "concat (map (\<lambda>c. descendants_of c r) xs) = []"
      "concat (map (\<lambda>c. descendants_of c r) ys) = []"
      by (simp_all add: descendants_of_absent)
    from Node.IH [OF c distinct_child [OF Node.prems(1) c] wc]
    have ih: "mset chainc + mset restc + (if dd then {#} else mset (descendants_of c r)) =
              mset (preorder c)" .
    have "mset chain + mset rest + (if dd then {#} else mset (descendants_of (Node l cs) r)) =
          {#l#} + mset (concat (map preorder xs)) + mset (concat (map preorder ys)) +
          (mset chainc + mset restc + (if dd then {#} else mset (descendants_of c r)))"
      unfolding cr split(1) using False by (simp add: descendants_of_Node sp de)
    also have "\<dots> = mset (preorder (Node l cs))"
      by (simp add: ih sp)
    finally show ?thesis .
  qed
qed

lemma find_links_result:
  assumes "tree_mechanism h t" and "upward_walk r dd t = Some (chain, rest)"
  shows "\<exists>n. \<forall>m\<ge>n. \<forall>t0. find_links m h r True dd t0 =
           Some \<lparr>links = chain @ rest, numUpwardConnections = int (length chain) - 1\<rparr>"
proof -
  from assms(1) have ok: "subtree_ok h t" and dist: "distinct (preorder t)"
    and bd: "\<forall>x \<in> set (preorder t). body (h x) = body (h (root_of t))"
    and top: "case parent (h (root_of t)) of None \<Rightarrow> True
              | Some par \<Rightarrow> body (h par) \<noteq> body (h (root_of t))"
    unfolding tree_mechanism_def by blast+
  have env: "runs (\<lambda>m. upward_part m h (root_of t)) [] 0"
    by (rule runsI [of 0]) (simp add: upward_part_stop [OF top])
  have "runs (\<lambda>m. traverse m h r True dd False None) (chain @ [] @ rest)
              ((if False then 1 else 0) + int (length chain) - 1 + 0)"
    by (rule traverse_up_runs [OF ok dist bd assms(2) env])
  then have "runs (\<lambda>m. traverse m h r True dd False None) (chain @ rest) (int (length chain) - 1)"
    by simp
  then obtain n where n: "\<forall>m\<ge>n. \<forall>t0. traverse m h r True dd False None t0 =
      Some (extended (chain @ rest) (int (length chain) - 1) t0)"
    unfolding runs_def by blast
  have "find_links m h r True dd t0 =
           Some \<lparr>links = chain @ rest, numUpwardConnections = int (length chain) - 1\<rparr>"
    if "n \<le> m" for m t0
  proof -
    from n that have "traverse m h r True dd False None (t0\<lparr>numUpwardConnections := 0, links := []\<rparr>) =
      Some (extended (chain @ rest) (int (length chain) - 1) (t0\<lparr>numUpwardConnections := 0, links := []\<rparr>))"
      by blast
    then show ?thesis
      unfolding find_links_def by (simp add: extended_def)
  qed
  then show ?thesis by blast
qed

lemma heap_fork_simps:
  "heap_fork 0 = link0\<lparr>child := Some 1\<rparr>"
  "heap_fork (Suc 0) = link0\<lparr>parent := Some 0, child := Some 3, sibling := Some 2\<rparr>"
  "heap_fork 2 = link0\<lparr>parent := Some 0\<rparr>"
  "heap_fork 3 = link0\<lparr>parent := Some 1\<rparr>"
  by (simp_all add: heap_fork_def)

lemma tree_fork_mechanism: "tree_mechanism heap_fork tree_fork"
  by (simp add: tree_mechanism_def tree_fork_def heap_fork_simps link0_def)

lemma upward_walk_chain_subset:
  assumes "distinct (preorder t)" and wk: "upward_walk r dd t = Some (chain, rest)"
  shows "set chain \<subseteq> set (preorder t)"
proof -
  from upward_walk_mset [OF assms]
  have "set_mset (mset chain + mset rest +
            (if dd then {#} else mset (descendants_of t r))) = set_mset (mset (preorder t))"
    by (simp only:)
  then show ?thesis
    by (simp only: set_mset_union set_mset_mset) blast
qed
lemma chain_links:
  assumes tm: "tree_mechanism h t" and wk: "upward_walk r dd t = Some (chain, rest)"
    and i: "Suc i < length chain"
  shows "parent (h ((chain @ rest) ! i)) = Some ((chain @ rest) ! Suc i) \<and>
         body (h ((chain @ rest) ! Suc i)) = body (h ((chain @ rest) ! i))"
proof -
  from tm have ok: "subtree_ok h t" and dist: "distinct (preorder t)"
    and bd: "\<forall>x \<in> set (preorder t). body (h x) = body (h (root_of t))"
    unfolding tree_mechanism_def by blast+
  from i have i': "i < length chain" by simp
  from upward_walk_parents [OF ok wk i]
  have p: "parent (h (chain ! i)) = Some (chain ! Suc i)" .
  from upward_walk_chain_subset [OF dist wk] i i'
  have m: "chain ! i \<in> set (preorder t)" "chain ! Suc i \<in> set (preorder t)"
    using nth_mem by blast+
  from bd [rule_format, OF m(1)] bd [rule_format, OF m(2)]
  have "body (h (chain ! Suc i)) = body (h (chain ! i))" by (simp only:)
  with p i i' show ?thesis by (simp add: nth_append)
qed

lemma find_links_chain:
  assumes tm: "tree_mechanism h t" and r: "r \<in> set (preorder t)"
  shows "\<exists>tr n chain rest.
           upward_walk r dd t = Some (chain, rest) \<and> links tr = chain @ rest \<and>
           (\<forall>m\<ge>n. find_links m h r True dd t0 = Some tr) \<and>
           0 \<le> numUpwardConnections tr \<and>
           nat (numUpwardConnections tr) < length (links tr) \<and>
           links tr ! 0 = r \<and>
           links tr ! nat (numUpwardConnections tr) = root_of t \<and>
           (\<forall>i < nat (numUpwardConnections tr).
              parent (h (links tr ! i)) = Some (links tr ! Suc i) \<and>
              body (h (links tr ! Suc i)) = body (h (links tr ! i)))"
proof -
  from upward_walk_total [OF r] obtain chain rest where
    wk: "upward_walk r dd t = Some (chain, rest)" by blast
  from find_links_result [OF tm wk] obtain n where
    n: "\<forall>m\<ge>n. \<forall>t0. find_links m h r True dd t0 =
           Some \<lparr>links = chain @ rest, numUpwardConnections = int (length chain) - 1\<rparr>"
    by blast
  let ?tr = "\<lparr>links = chain @ rest, numUpwardConnections = int (length chain) - 1\<rparr>"
  from upward_walk_chain [OF wk] have ch: "chain \<noteq> []" "hd chain = r" "last chain = root_of t"
    by simp_all
  from ch(1) have len: "0 < length chain" by simp
  then have u: "nat (int (length chain) - 1) = length chain - 1" by simp
  have len': "length chain - 1 < length chain + length rest"
    using ch(1) by (cases chain) simp_all
  have a: "(chain @ rest) ! 0 = r"
    using ch(1,2) by (simp add: nth_append hd_conv_nth)
  have b: "(chain @ rest) ! (length chain - 1) = root_of t"
    using ch(1,3) by (simp add: nth_append last_conv_nth)
  have c: "parent (h ((chain @ rest) ! i)) = Some ((chain @ rest) ! Suc i) \<and>
           body (h ((chain @ rest) ! Suc i)) = body (h ((chain @ rest) ! i))"
    if "i < length chain - 1" for i
    by (rule chain_links [OF tm wk]) (use that in simp)
  have f: "\<forall>m\<ge>n. find_links m h r True dd t0 = Some ?tr"
    using n by blast
  have g: "\<forall>i < nat (numUpwardConnections ?tr).
              parent (h (links ?tr ! i)) = Some (links ?tr ! Suc i) \<and>
              body (h (links ?tr ! Suc i)) = body (h (links ?tr ! i))"
    using c by (simp add: u)
  have k: "0 \<le> numUpwardConnections ?tr" "nat (numUpwardConnections ?tr) < length (links ?tr)"
    "links ?tr ! 0 = r" "links ?tr ! nat (numUpwardConnections ?tr) = root_of t"
    "links ?tr = chain @ rest"
    using len len' a b by (simp_all add: u)
  have "upward_walk r dd t = Some (chain, rest) \<and> links ?tr = chain @ rest \<and>
        (\<forall>m\<ge>n. find_links m h r True dd t0 = Some ?tr) \<and>
        0 \<le> numUpwardConnections ?tr \<and> nat (numUpwardConnections ?tr) < length (links ?tr) \<and>
        links ?tr ! 0 = r \<and> links ?tr ! nat (numUpwardConnections ?tr) = root_of t \<and>
        (\<forall>i < nat (numUpwardConnections ?tr).
              parent (h (links ?tr ! i)) = Some (links ?tr ! Suc i) \<and>
              body (h (links ?tr ! Suc i)) = body (h (links ?tr ! i)))"
    by (intro conjI) (rule k f g wk)+
  then show ?thesis
    by (intro exI [of _ ?tr] exI [of _ n] exI [of _ chain] exI [of _ rest])
qed

lemma mset_parts_distinct:
  assumes "mset xs + mset ys = mset zs" and "distinct zs"
  shows "distinct xs" and "set xs = set zs - set ys"
proof -
  from assms(1) have m: "mset (xs @ ys) = mset zs" by simp
  from mset_eq_imp_distinct_iff [OF m] assms(2) have d: "distinct (xs @ ys)" by simp
  then show "distinct xs" by simp
  from d have dj: "set xs \<inter> set ys = {}" by simp
  from mset_eq_setD [OF m] have "set xs \<union> set ys = set zs" by simp
  with dj show "set xs = set zs - set ys" by blast
qed

text \<open>
  C1. In a tree-structured mechanism, \<open>find\<close> from any of its links with both directions
  enabled returns, given enough fuel, a sequence that holds every link of the mechanism
  exactly once and starts with the reference link.
\<close>

theorem find_links_covers_mechanism:
  assumes "tree_mechanism h t" and "r \<in> set (preorder t)"
  shows "\<exists>tr n. (\<forall>m\<ge>n. find_links m h r True True t0 = Some tr) \<and>
           distinct (links tr) \<and> set (links tr) = set (preorder t) \<and>
           links tr \<noteq> [] \<and> links tr ! 0 = r"
proof -
  from find_links_chain [OF assms, of True t0] obtain tr n chain rest where
    wk: "upward_walk r True t = Some (chain, rest)" and l: "links tr = chain @ rest" and
    f: "\<forall>m\<ge>n. find_links m h r True True t0 = Some tr" and
    len: "nat (numUpwardConnections tr) < length (links tr)" and z: "links tr ! 0 = r"
    by blast
  from assms(1) have dist: "distinct (preorder t)" unfolding tree_mechanism_def by blast
  from upward_walk_mset [OF dist wk] have "mset (links tr) + mset [] = mset (preorder t)"
    by (simp add: l)
  from mset_parts_distinct [OF this dist] have "distinct (links tr)" "set (links tr) = set (preorder t)"
    by simp_all
  moreover from len have "links tr \<noteq> []" by auto
  ultimately show ?thesis using f z by blast
qed

theorem find_links_covers_mechanism_witness:
  "\<exists>tr n. (\<forall>m\<ge>n. find_links m heap_fork 1 True True empty_traverse = Some tr) \<and>
           distinct (links tr) \<and> set (links tr) = {0, 1, 2, 3} \<and>
           links tr \<noteq> [] \<and> links tr ! 0 = 1"
  using find_links_covers_mechanism [OF tree_fork_mechanism, of 1 empty_traverse]
  by (simp add: tree_fork_def insert_commute)

text \<open>
  C2. After \<open>find\<close> with \<open>doUpward\<close> from a link of a tree-structured mechanism, the counter
  \<open>U\<close> is the number of parent pointers, each within the body, that lead from the reference
  link at index 0 to the root of the mechanism at index \<open>U\<close>; the parent of the root is null
  or belongs to another body.
\<close>

theorem find_links_upward_count:
  assumes "tree_mechanism h t" and "r \<in> set (preorder t)"
  shows "\<exists>tr n. (\<forall>m\<ge>n. find_links m h r True doDownward t0 = Some tr) \<and>
           0 \<le> numUpwardConnections tr \<and>
           nat (numUpwardConnections tr) < length (links tr) \<and>
           links tr ! 0 = r \<and>
           links tr ! nat (numUpwardConnections tr) = root_of t \<and>
           (\<forall>i < nat (numUpwardConnections tr).
              parent (h (links tr ! i)) = Some (links tr ! Suc i) \<and>
              body (h (links tr ! Suc i)) = body (h (links tr ! i))) \<and>
           (case parent (h (root_of t)) of
              None \<Rightarrow> True
            | Some par \<Rightarrow> body (h par) \<noteq> body (h (root_of t)))"
proof -
  from assms(1) have top: "case parent (h (root_of t)) of None \<Rightarrow> True
            | Some par \<Rightarrow> body (h par) \<noteq> body (h (root_of t))"
    unfolding tree_mechanism_def by blast
  from find_links_chain [OF assms, of doDownward t0] obtain tr n where
    "(\<forall>m\<ge>n. find_links m h r True doDownward t0 = Some tr) \<and>
           0 \<le> numUpwardConnections tr \<and>
           nat (numUpwardConnections tr) < length (links tr) \<and>
           links tr ! 0 = r \<and>
           links tr ! nat (numUpwardConnections tr) = root_of t \<and>
           (\<forall>i < nat (numUpwardConnections tr).
              parent (h (links tr ! i)) = Some (links tr ! Suc i) \<and>
              body (h (links tr ! Suc i)) = body (h (links tr ! i)))"
    by blast
  with top show ?thesis by blast
qed

theorem find_links_upward_count_witness:
  "\<exists>tr n. (\<forall>m\<ge>n. find_links m heap_fork 3 True True empty_traverse = Some tr) \<and>
           0 \<le> numUpwardConnections tr \<and>
           nat (numUpwardConnections tr) < length (links tr) \<and>
           links tr ! 0 = 3 \<and>
           links tr ! nat (numUpwardConnections tr) = 0"
  using find_links_upward_count [OF tree_fork_mechanism, of 3 True empty_traverse]
  by (auto simp add: tree_fork_def)

text \<open>
  C5, amended. The recursion into the parent passes \<open>true\<close> for \<open>doDownward\<close>, so the
  subtrees of the other children of every ancestor are traversed whatever the flag of the
  original call is. With \<open>doUpward\<close> and without \<open>doDownward\<close>, \<open>find\<close> from a link \<open>r\<close> of a
  tree-structured mechanism returns the chain of parents from \<open>r\<close> to the root at the
  indices \<open>0..U\<close> and, in all, every link of the mechanism exactly once but for the strict
  descendants of \<open>r\<close>, which are left out.
\<close>

theorem find_links_upward_only:
  assumes "tree_mechanism h t" and "r \<in> set (preorder t)"
  shows "\<exists>tr n. (\<forall>m\<ge>n. find_links m h r True False t0 = Some tr) \<and>
           distinct (links tr) \<and>
           set (links tr) = set (preorder t) - set (descendants_of t r) \<and>
           0 \<le> numUpwardConnections tr \<and>
           nat (numUpwardConnections tr) < length (links tr) \<and>
           links tr ! 0 = r \<and>
           links tr ! nat (numUpwardConnections tr) = root_of t \<and>
           (\<forall>i < nat (numUpwardConnections tr).
              parent (h (links tr ! i)) = Some (links tr ! Suc i))"
proof -
  from find_links_chain [OF assms, of False t0] obtain tr n chain rest where
    wk: "upward_walk r False t = Some (chain, rest)" and l: "links tr = chain @ rest" and
    f: "(\<forall>m\<ge>n. find_links m h r True False t0 = Some tr) \<and>
           0 \<le> numUpwardConnections tr \<and>
           nat (numUpwardConnections tr) < length (links tr) \<and>
           links tr ! 0 = r \<and>
           links tr ! nat (numUpwardConnections tr) = root_of t \<and>
           (\<forall>i < nat (numUpwardConnections tr).
              parent (h (links tr ! i)) = Some (links tr ! Suc i) \<and>
              body (h (links tr ! Suc i)) = body (h (links tr ! i)))"
    by blast
  from assms(1) have dist: "distinct (preorder t)" unfolding tree_mechanism_def by blast
  from upward_walk_mset [OF dist wk]
  have "mset (links tr) + mset (descendants_of t r) = mset (preorder t)"
    by (simp add: l)
  from mset_parts_distinct [OF this dist]
  have "distinct (links tr)" "set (links tr) = set (preorder t) - set (descendants_of t r)" .
  with f show ?thesis by blast
qed

theorem find_links_upward_only_witness:
  "\<exists>tr n. (\<forall>m\<ge>n. find_links m heap_fork 1 True False empty_traverse = Some tr) \<and>
           distinct (links tr) \<and> set (links tr) = {0, 1, 2} \<and>
           links tr ! 0 = 1 \<and> links tr ! nat (numUpwardConnections tr) = 0"
proof -
  have "set (preorder tree_fork) - set (descendants_of tree_fork 1) = {0, 1, 2}"
    by (auto simp add: tree_fork_def descendants_of_def)
  with find_links_upward_only [OF tree_fork_mechanism, of 1 empty_traverse]
  show ?thesis by (auto simp add: tree_fork_def)
qed

text \<open>
  C5 as stated fails: from link 1 of the mechanism 0 \<rightarrow> (1 \<rightarrow> 3, 2), with \<open>doUpward\<close> and
  without \<open>doDownward\<close>, the sequence is 1, 0, 2: it holds link 2, a child of the ancestor 0,
  and is not the chain of parents 1, 0.
\<close>

theorem find_links_upward_only_counterexample:
  "find_links 5 heap_fork 1 True False empty_traverse =
     Some \<lparr>links = [1, 0, 2], numUpwardConnections = 1\<rparr> \<and>
   parent (heap_fork 1) = Some 0 \<and> parent (heap_fork 0) = None \<and> parent (heap_fork 2) = Some 0"
  by code_simp

section \<open>Properties of the search for the adjacent link\<close>

lemma returnsI: "(\<And>m. n \<le> m \<Longrightarrow> g m = Some x) \<Longrightarrow> returns g x"
  unfolding returns_def by blast

lemma findRootAdjacentLink_Suc_down:
  "findRootAdjacentLink (Suc n) h link prev f False =
     (if link = f then Some (prev, False)
      else findRootAdjacentLink_children n h (child (h link)) link prev f False)"
  by simp

lemma findRootAdjacentLink_Suc_up:
  assumes "\<forall>par. parent (h link) = Some par \<longrightarrow> Some par \<noteq> prev"
  shows "findRootAdjacentLink (Suc n) h link prev f True =
     (if link = f then Some (prev, True)
      else (case upward_search n h link f of
              None \<Rightarrow> None
            | Some (Some found, u) \<Rightarrow> Some (Some found, u)
            | Some (None, u) \<Rightarrow>
                findRootAdjacentLink_children n h (child (h link)) link prev f False))"
  using assms by (cases "parent (h link)") (simp_all add: upward_search_def)

lemma tree_parent:
  "subtree_ok h s \<Longrightarrow> f \<in> set (preorder s) \<Longrightarrow> f \<noteq> root_of s \<Longrightarrow>
   \<exists>par. parent (h f) = Some par \<and> par \<in> set (preorder s)"
proof (induction s)
  case (Node l cs)
  from Node.prems obtain c where c: "c \<in> set cs" "f \<in> set (preorder c)" by auto
  from Node.prems(1) c(1) have ok: "subtree_ok h c" and sc: "sibling_chain h l cs" by simp_all
  show ?case
  proof (cases "f = root_of c")
    case True
    with sibling_chain_parent [OF sc c(1)] show ?thesis by simp
  next
    case False
    from Node.IH [OF c(1) ok c(2) False] c(1) show ?thesis by auto
  qed
qed

lemma children_search_returns:
  assumes "sibling_chain h l cs"
    and "\<And>c. c \<in> set cs \<Longrightarrow> subtree_ok h c"
    and "\<And>c. c \<in> set cs \<Longrightarrow>
           returns (\<lambda>m. findRootAdjacentLink m h (root_of c) (Some l) f False)
                   (down_result h c (Some l) f)"
  shows "returns (\<lambda>m. findRootAdjacentLink_children m h (first_ptr cs) l prev f False)
           (if f \<in> set (concat (map preorder (filter (\<lambda>c. Some (root_of c) \<noteq> prev) cs)))
            then (parent (h f), False) else (None, False))"
  using assms
proof (induction cs)
  case Nil
  show ?case by (rule returnsI [of 0]) simp
next
  case (Cons c cs)
  let ?F = "\<lambda>cs. concat (map preorder (filter (\<lambda>c. Some (root_of c) \<noteq> prev) cs))"
  from Cons.prems(1) have sib: "sibling (h (root_of c)) = first_ptr cs"
    and pc: "parent (h (root_of c)) = Some l"
    and ch: "sibling_chain h l cs" by simp_all
  have "returns (\<lambda>m. findRootAdjacentLink_children m h (first_ptr cs) l prev f False)
           (if f \<in> set (?F cs) then (parent (h f), False) else (None, False))"
    by (rule Cons.IH [OF ch]) (simp_all add: Cons.prems)
  then obtain n1 where n1: "\<forall>m\<ge>n1. findRootAdjacentLink_children m h (first_ptr cs) l prev f False =
      Some (if f \<in> set (?F cs) then (parent (h f), False) else (None, False))"
    unfolding returns_def by blast
  from Cons.prems(3) [of c] obtain n2 where
    n2: "\<forall>m\<ge>n2. findRootAdjacentLink m h (root_of c) (Some l) f False = Some (down_result h c (Some l) f)"
    unfolding returns_def by auto
  have okc: "subtree_ok h c" by (simp add: Cons.prems(2))
  have inner: "\<exists>par. parent (h f) = Some par" if "f \<in> set (preorder c)" "f \<noteq> root_of c"
    using tree_parent [OF okc that] by blast
  show ?case
  proof (rule returnsI [of "Suc (max n1 n2)"])
    fix m
    assume "Suc (max n1 n2) \<le> m"
    then obtain m' where m: "m = Suc m'" "n1 \<le> m'" "n2 \<le> m'"
      by (cases m) auto
    show "findRootAdjacentLink_children m h (first_ptr (c # cs)) l prev f False =
          Some (if f \<in> set (?F (c # cs)) then (parent (h f), False) else (None, False))"
    proof (cases "Some (root_of c) = prev")
      case True
      then have e: "?F (c # cs) = ?F cs" by simp
      from True [symmetric] have "findRootAdjacentLink_children (Suc m') h (first_ptr (c # cs)) l prev f False =
            findRootAdjacentLink_children m' h (first_ptr cs) l prev f False"
        by (simp add: sib)
      with m n1 show ?thesis unfolding e by simp
    next
      case False
      show ?thesis
      proof (cases "f \<in> set (preorder c)")
        case no: False
        then have "f \<noteq> root_of c" using root_in_preorder [of c] by auto
        with no have dr: "down_result h c (Some l) f = (None, False)"
          by (simp add: down_result_def)
        from False no have e: "(f \<in> set (?F (c # cs))) = (f \<in> set (?F cs))" by simp
        from False m n2 dr
        have "findRootAdjacentLink_children (Suc m') h (first_ptr (c # cs)) l prev f False =
            findRootAdjacentLink_children m' h (first_ptr cs) l prev f False"
          by (simp add: sib)
        with m n1 show ?thesis unfolding e by simp
      next
        case yes: True
        from False yes have e: "f \<in> set (?F (c # cs))" by simp
        have "\<exists>par. parent (h f) = Some par \<and> down_result h c (Some l) f = (Some par, False)"
        proof (cases "f = root_of c")
          case True
          with pc show ?thesis by (simp add: down_result_def)
        next
          case ne: False
          from inner [OF yes ne] obtain par where "parent (h f) = Some par" by blast
          with yes ne show ?thesis by (simp add: down_result_def)
        qed
        then obtain par where par: "parent (h f) = Some par"
          "down_result h c (Some l) f = (Some par, False)" by blast
        from False m n2 par
        have "findRootAdjacentLink_children (Suc m') h (first_ptr (c # cs)) l prev f False =
            Some (Some par, False)"
          by simp
        with m par(1) e show ?thesis by simp
      qed
    qed
  qed
qed

lemma down_search_returns:
  "subtree_ok h s \<Longrightarrow> distinct (preorder s) \<Longrightarrow> x \<notin> set (preorder s) \<Longrightarrow>
   returns (\<lambda>m. findRootAdjacentLink m h (root_of s) (Some x) f False) (down_result h s (Some x) f)"
proof (induction s arbitrary: x)
  case (Node l cs)
  from Node.prems(1) have ch: "child (h l) = first_ptr cs" and sc: "sibling_chain h l cs"
    and sub: "\<And>c. c \<in> set cs \<Longrightarrow> subtree_ok h c" by simp_all
  have ih: "returns (\<lambda>m. findRootAdjacentLink m h (root_of c) (Some l) f False)
                   (down_result h c (Some l) f)" if "c \<in> set cs" for c
    by (rule Node.IH [OF that sub [OF that] distinct_child [OF Node.prems(2) that]])
       (use Node.prems(2) that in auto)
  have flt: "filter (\<lambda>c. Some (root_of c) \<noteq> Some x) cs = cs"
  proof -
    have "root_of c \<noteq> x" if "c \<in> set cs" for c
      using Node.prems(3) that root_in_preorder [of c] by auto
    then show ?thesis by (simp add: filter_id_conv)
  qed
  from children_search_returns [OF sc sub ih, of "Some x"] obtain n where
    n: "\<forall>m\<ge>n. findRootAdjacentLink_children m h (first_ptr cs) l (Some x) f False =
      Some (if f \<in> set (concat (map preorder cs)) then (parent (h f), False) else (None, False))"
    unfolding returns_def flt by blast
  show ?case
  proof (rule returnsI [of "Suc n"])
    fix m
    assume "Suc n \<le> m"
    then obtain m' where m: "m = Suc m'" "n \<le> m'" by (cases m) auto
    show "findRootAdjacentLink m h (root_of (Node l cs)) (Some x) f False =
          Some (down_result h (Node l cs) (Some x) f)"
      using m n ch
      by (simp add: findRootAdjacentLink_Suc_down down_result_def del: findRootAdjacentLink.simps)
  qed
qed

lemma before_absent: "x \<notin> set (tl ys) \<Longrightarrow> before x ys = None"
  by (induction x ys rule: before.induct) auto

lemma before_append: "x \<notin> set ys \<Longrightarrow> before x (xs @ ys) = before x xs"
proof (induction x xs rule: before.induct)
  case (1 x)
  then show ?case by (cases ys) (simp_all add: before_absent)
next
  case (2 x y)
  then show ?case by (cases ys) (auto simp add: before_absent)
next
  case (3 x y z zs)
  then show ?case by simp
qed

lemma before_last: "xs \<noteq> [] \<Longrightarrow> x \<notin> set xs \<Longrightarrow> before x (xs @ [x]) = Some (last xs)"
  by (induction x xs rule: before.induct) auto

lemma up_search_returns:
  assumes "subtree_ok h t" and "distinct (preorder t)"
    and "upward_walk tg dd t = Some (chain, rest)"
    and "\<forall>par. parent (h (root_of t)) = Some par \<longrightarrow> par \<notin> set (preorder t)"
    and "returns (\<lambda>m. upward_search m h (root_of t) f) ra"
  shows "returns (\<lambda>m. findRootAdjacentLink m h tg None f True) (up_result h t chain f ra)"
  using assms
proof (induction t arbitrary: chain rest ra)
  case (Node l cs)
  from Node.prems(1) have ch: "child (h l) = first_ptr cs" and sc: "sibling_chain h l cs"
    and sub: "\<And>c. c \<in> set cs \<Longrightarrow> subtree_ok h c" by simp_all
  from Node.prems(5) obtain ne where
    ne: "\<forall>m\<ge>ne. upward_search m h l f = Some ra"
    unfolding returns_def by auto
  have dn: "returns (\<lambda>m. findRootAdjacentLink m h (root_of c) (Some l) f False)
                   (down_result h c (Some l) f)" if "c \<in> set cs" for c
    by (rule down_search_returns [OF sub [OF that] distinct_child [OF Node.prems(2) that]])
       (use Node.prems(2) that in auto)
  have loop: "returns (\<lambda>m. findRootAdjacentLink_children m h (first_ptr cs) l prev f False)
           (if f \<in> set (concat (map preorder (filter (\<lambda>c. Some (root_of c) \<noteq> prev) cs)))
            then (parent (h f), False) else (None, False))" for prev
    by (rule children_search_returns [OF sc sub dn])
  have par_some: "\<exists>par. parent (h f) = Some par"
    if "f \<in> set (concat (map preorder cs))"
  proof -
    from that Node.prems(2) have "f \<in> set (preorder (Node l cs))" "f \<noteq> root_of (Node l cs)"
      by auto
    from tree_parent [OF Node.prems(1) this] show ?thesis by blast
  qed
  show ?case
  proof (cases "l = tg")
    case True
    with Node.prems(3) have cr: "chain = [tg]" by simp
    from loop [of None] obtain nd where
      nd: "\<forall>m\<ge>nd. findRootAdjacentLink_children m h (first_ptr cs) l None f False =
            Some (if f \<in> set (concat (map preorder cs))
                  then (parent (h f), False) else (None, False))"
      unfolding returns_def by auto
    show ?thesis
    proof (rule returnsI [of "Suc (max ne nd)"])
      fix m
      assume "Suc (max ne nd) \<le> m"
      then obtain m' where m: "m = Suc m'" "ne \<le> m'" "nd \<le> m'" by (cases m) auto
      have step: "findRootAdjacentLink (Suc m') h tg None f True =
         (if tg = f then Some (None, True)
          else (case ra of
                  (Some found, u) \<Rightarrow> Some (Some found, u)
                | (None, u) \<Rightarrow>
                    Some (if f \<in> set (concat (map preorder cs))
                          then (parent (h f), False) else (None, False))))"
        using m ne nd ch True
        by (subst findRootAdjacentLink_Suc_up) (auto split: option.splits prod.splits)
      show "findRootAdjacentLink m h tg None f True = Some (up_result h (Node l cs) chain f ra)"
        unfolding m(1) step using True
        by (cases ra; cases "fst ra") (auto simp add: up_result_def cr)
    qed
  next
    case False
    with Node.prems(3) obtain c chainc restc where
      wl: "upward_walk_list tg dd cs = Some (c, chainc, restc)" and
      cr: "chain = chainc @ [l]"
      by (auto split: option.splits)
    from upward_walk_list_Some [OF wl] have c: "c \<in> set cs"
      and wc: "upward_walk tg dd c = Some (chainc, restc)" by simp_all
    let ?others = "concat (map preorder (filter (\<lambda>x. Some (root_of x) \<noteq> Some (root_of c)) cs))"
    let ?rc = "if l = f then (Some (root_of c), True)
               else if fst ra \<noteq> None then ra
               else if f \<in> set ?others then (parent (h f), False) else (None, False)"
    from sibling_chain_parent [OF sc c] have pc: "parent (h (root_of c)) = Some l" .
    have dc: "distinct (preorder c)" by (rule distinct_child [OF Node.prems(2) c])
    have lc: "l \<notin> set (preorder c)" using Node.prems(2) c by auto
    from c have rcin: "root_of c \<in> set (preorder (Node l cs))"
      by (auto intro!: bexI [of _ c])
    have notprev: "\<forall>par. parent (h l) = Some par \<longrightarrow> Some par \<noteq> Some (root_of c)"
      using Node.prems(4) rcin by auto
    from loop [of "Some (root_of c)"] obtain nd where
      nd: "\<forall>m\<ge>nd. findRootAdjacentLink_children m h (first_ptr cs) l (Some (root_of c)) f False =
            Some (if f \<in> set ?others then (parent (h f), False) else (None, False))"
      unfolding returns_def by auto
    have env: "returns (\<lambda>m. upward_search m h (root_of c) f) ?rc"
    proof (rule returnsI [of "Suc (max ne nd)"])
      fix m
      assume "Suc (max ne nd) \<le> m"
      then obtain m' where m: "m = Suc m'" "ne \<le> m'" "nd \<le> m'" by (cases m) auto
      have "upward_search m h (root_of c) f = findRootAdjacentLink (Suc m') h l (Some (root_of c)) f True"
        by (simp add: upward_search_def pc m(1))
      also have "\<dots> = Some ?rc"
        using m ne nd ch
        by (subst findRootAdjacentLink_Suc_up [of h l "Some (root_of c)", OF notprev])
           (cases ra; cases "fst ra"; auto)
      finally show "upward_search m h (root_of c) f = Some ?rc" .
    qed
    have above: "\<forall>par. parent (h (root_of c)) = Some par \<longrightarrow> par \<notin> set (preorder c)"
      using pc lc by simp
    from Node.IH [OF c sub [OF c] dc wc above env]
    have ih: "returns (\<lambda>m. findRootAdjacentLink m h tg None f True) (up_result h c chainc f ?rc)" .
    from upward_walk_chain [OF wc] have chn: "chainc \<noteq> []" "last chainc = root_of c" by simp_all
    from upward_walk_chain_subset [OF dc wc] have sub_c: "set chainc \<subseteq> set (preorder c)" .
    with lc have lch: "l \<notin> set chainc" by auto
    from c obtain xs ys where sp: "cs = xs @ c # ys" by (auto simp add: in_set_conv_decomp)
    from Node.prems(2) have dcs: "distinct (concat (map preorder cs))" by simp
    have oth: "filter (\<lambda>x. Some (root_of x) \<noteq> Some (root_of c)) cs = xs @ ys"
      using distinct_children_split(1) [OF dcs sp] by simp
    have mem: "f \<in> set (preorder (Node l cs)) \<longleftrightarrow>
               f = l \<or> f \<in> set (preorder c) \<or> f \<in> set ?others"
      unfolding oth by (auto simp add: sp)
    have disj: "f \<in> set ?others \<Longrightarrow> f \<notin> set (preorder c)"
      unfolding oth using distinct_children_split(2) [OF dcs sp] by auto
    have eq: "up_result h c chainc f ?rc = up_result h (Node l cs) chain f ra"
    proof (cases "f \<in> set chainc")
      case True
      with lch have "f \<noteq> l" by auto
      with True show ?thesis
        by (simp add: up_result_def cr before_append)
    next
      case nf: False
      show ?thesis
      proof (cases "f = l")
        case True
        with nf chn lch show ?thesis
          by (simp add: up_result_def cr before_last)
      next
        case fl: False
        show ?thesis
        proof (cases "fst ra \<noteq> None")
          case True
          with nf fl show ?thesis by (simp add: up_result_def cr)
        next
          case nr: False
          show ?thesis
          proof (cases "f \<in> set ?others")
            case True
            then have "f \<in> set (concat (map preorder cs))" unfolding oth by (auto simp add: sp)
            from par_some [OF this] obtain par where "parent (h f) = Some par" by blast
            with nf fl nr True mem show ?thesis
              by (simp add: up_result_def cr del: preorder.simps set_concat)
          next
            case no: False
            with nf fl nr mem show ?thesis
              by (simp add: up_result_def cr del: preorder.simps set_concat)
          qed
        qed
      qed
    qed
    from ih show ?thesis unfolding eq .
  qed
qed

lemma descendants_subset:
  "set (descendants_of t f) \<subseteq> set (concat (map preorder (children_of t)))"
proof (induction t)
  case (Node l cs)
  have "set (descendants_of c f) \<subseteq> set (preorder c)" if "c \<in> set cs" for c
  proof -
    have "set (concat (map preorder (children_of c))) \<subseteq> set (preorder c)"
      by (cases c) auto
    with Node.IH [OF that] show ?thesis by blast
  qed
  then show ?case by (auto simp add: descendants_of_Node)
qed

lemma descendants_in_tree: "set (descendants_of t f) \<subseteq> set (preorder t)"
  using descendants_subset [of t f] by (cases t) auto

lemma chain_descendants:
  "distinct (preorder t) \<Longrightarrow> upward_walk tg dd t = Some (chain, rest) \<Longrightarrow>
   (f \<in> set chain \<and> f \<noteq> tg) = (tg \<in> set (descendants_of t f))"
proof (induction t arbitrary: chain rest)
  case (Node l cs)
  have inner: "tg \<in> set (descendants_of c f) \<Longrightarrow> tg \<in> set (preorder c)" for c
    using descendants_in_tree [of c f] by blast
  show ?case
  proof (cases "l = tg")
    case True
    with Node.prems(2) have cr: "chain = [tg]" by simp
    from True Node.prems(1) have notin: "\<And>c. c \<in> set cs \<Longrightarrow> tg \<notin> set (preorder c)" by auto
    then have "tg \<notin> set (descendants_of (Node l cs) f)"
      using inner by (auto simp add: descendants_of_Node)
    then show ?thesis by (auto simp add: cr)
  next
    case False
    with Node.prems(2) obtain c chainc restc where
      wl: "upward_walk_list tg dd cs = Some (c, chainc, restc)" and
      cr: "chain = chainc @ [l]"
      by (auto split: option.splits)
    from upward_walk_list_Some [OF wl] have c: "c \<in> set cs"
      and wc: "upward_walk tg dd c = Some (chainc, restc)" by simp_all
    have dc: "distinct (preorder c)" by (rule distinct_child [OF Node.prems(1) c])
    from upward_walk_mem [OF wc] have tgc: "tg \<in> set (preorder c)" .
    from c obtain xs ys where sp: "cs = xs @ c # ys" by (auto simp add: in_set_conv_decomp)
    from Node.prems(1) have dcs: "distinct (concat (map preorder cs))" by simp
    from distinct_children_split(2) [OF dcs sp] tgc
    have other: "\<And>x. x \<in> set xs \<union> set ys \<Longrightarrow> tg \<notin> set (preorder x)" by blast
    have only: "(\<exists>x \<in> set cs. tg \<in> set (descendants_of x f)) = (tg \<in> set (descendants_of c f))"
      using other inner c by (auto simp add: sp)
    from upward_walk_chain_subset [OF dc wc] Node.prems(1) c have lch: "l \<notin> set chainc" by auto
    show ?thesis
    proof (cases "f = l")
      case True
      with False c tgc show ?thesis
        by (auto simp add: cr descendants_of_Node)
    next
      case fl: False
      from Node.IH [OF c dc wc]
      have "(f \<in> set chainc \<and> f \<noteq> tg) = (tg \<in> set (descendants_of c f))" .
      with fl only show ?thesis
        by (simp add: cr descendants_of_Node)
    qed
  qed
qed

lemma before_index:
  "distinct xs \<Longrightarrow> x \<in> set xs \<Longrightarrow> x \<noteq> hd xs \<Longrightarrow>
   \<exists>i. Suc i < length xs \<and> xs ! Suc i = x \<and> before x xs = Some (xs ! i)"
proof (induction x xs rule: before.induct)
  case (1 x)
  then show ?case by simp
next
  case (2 x y)
  then show ?case by simp
next
  case (3 x y z zs)
  show ?case
  proof (cases "z = x")
    case True
    then have "Suc 0 < length (y # z # zs) \<and> (y # z # zs) ! Suc 0 = x \<and>
               before x (y # z # zs) = Some ((y # z # zs) ! 0)" by simp
    then show ?thesis by blast
  next
    case False
    with "3.prems" have "distinct (z # zs)" "x \<in> set (z # zs)" "x \<noteq> hd (z # zs)" by auto
    from "3.IH" [OF False this] obtain i where
      "Suc i < length (z # zs)" "(z # zs) ! Suc i = x" "before x (z # zs) = Some ((z # zs) ! i)"
      by blast
    with False have "Suc (Suc i) < length (y # z # zs) \<and> (y # z # zs) ! Suc (Suc i) = x \<and>
               before x (y # z # zs) = Some ((y # z # zs) ! Suc i)" by simp
    then show ?thesis by blast
  qed
qed

lemma upward_walk_chain_distinct:
  assumes "distinct (preorder t)" and "upward_walk tg dd t = Some (chain, rest)"
  shows "distinct chain"
proof -
  from upward_walk_mset [OF assms]
  have "mset chain + mset (rest @ (if dd then [] else descendants_of t tg)) = mset (preorder t)"
    by (cases dd) (simp_all add: add.assoc)
  from mset_parts_distinct(1) [OF this assms(1)] show ?thesis .
qed

lemma findRootAdjacentLink_tree:
  assumes ok: "subtree_ok h t" and dist: "distinct (preorder t)"
    and top: "parent (h (root_of t)) = None" and tg: "tg \<in> set (preorder t)"
  shows "\<exists>res n. (\<forall>m\<ge>n. findRootAdjacentLink m h tg None f True = Some res) \<and>
     (f = tg \<or> f \<notin> set (preorder t) \<longrightarrow> fst res = None) \<and>
     (tg \<in> set (descendants_of t f) \<longrightarrow>
        (\<exists>c. res = (Some c, True) \<and> parent (h c) = Some f \<and>
             (tg = c \<or> tg \<in> set (descendants_of t c)))) \<and>
     (f \<in> set (preorder t) \<and> f \<noteq> tg \<and> tg \<notin> set (descendants_of t f) \<longrightarrow>
        (\<exists>par. res = (Some par, False) \<and> parent (h f) = Some par))"
proof -
  from upward_walk_total [OF tg] obtain chain rest where
    wk: "upward_walk tg False t = Some (chain, rest)" by blast
  have env: "returns (\<lambda>m. upward_search m h (root_of t) f) (None, True)"
    by (rule returnsI [of 0]) (simp add: upward_search_def top)
  have above: "\<forall>par. parent (h (root_of t)) = Some par \<longrightarrow> par \<notin> set (preorder t)"
    by (simp add: top)
  let ?res = "up_result h t chain f (None, True)"
  from up_search_returns [OF ok dist wk above env] obtain n where
    n: "\<forall>m\<ge>n. findRootAdjacentLink m h tg None f True = Some ?res"
    unfolding returns_def by blast
  from upward_walk_chain [OF wk] have ch: "chain \<noteq> []" "hd chain = tg" "last chain = root_of t"
    by simp_all
  have dch: "distinct chain" by (rule upward_walk_chain_distinct [OF dist wk])
  have sub: "set chain \<subseteq> set (preorder t)" by (rule upward_walk_chain_subset [OF dist wk])
  have cd: "(x \<in> set chain \<and> x \<noteq> tg) = (tg \<in> set (descendants_of t x))" for x
    by (rule chain_descendants [OF dist wk])
  have a: "fst ?res = None" if "f = tg \<or> f \<notin> set (preorder t)"
  proof (cases "f = tg")
    case True
    from ch(1,2) dch have "tg \<notin> set (tl chain)" by (cases chain) auto
    then have "before tg chain = None" by (rule before_absent)
    moreover from ch(1,2) have "tg \<in> set chain" by (cases chain) auto
    ultimately show ?thesis using True by (simp add: up_result_def)
  next
    case False
    with that have "f \<notin> set (preorder t)" by simp
    moreover with sub have "f \<notin> set chain" by blast
    ultimately show ?thesis by (simp add: up_result_def)
  qed
  have b: "\<exists>c. ?res = (Some c, True) \<and> parent (h c) = Some f \<and>
             (tg = c \<or> tg \<in> set (descendants_of t c))"
    if "tg \<in> set (descendants_of t f)"
  proof -
    from that cd [of f] have fc: "f \<in> set chain" "f \<noteq> tg" by simp_all
    with ch(2) have "f \<noteq> hd chain" by simp
    from before_index [OF dch fc(1) this] obtain i where
      i: "Suc i < length chain" "chain ! Suc i = f" "before f chain = Some (chain ! i)"
      by blast
    from upward_walk_parents [OF ok wk i(1)] i(2)
    have p: "parent (h (chain ! i)) = Some f" by simp
    from i(1) have "chain ! i \<in> set chain" by simp
    with cd [of "chain ! i"] have "tg = chain ! i \<or> tg \<in> set (descendants_of t (chain ! i))"
      by blast
    with p fc(1) i(3) show ?thesis by (simp add: up_result_def)
  qed
  have c: "\<exists>par. ?res = (Some par, False) \<and> parent (h f) = Some par"
    if "f \<in> set (preorder t) \<and> f \<noteq> tg \<and> tg \<notin> set (descendants_of t f)"
  proof -
    from that cd [of f] have nf: "f \<notin> set chain" by blast
    from ch(1,3) have "root_of t \<in> set chain" using last_in_set by metis
    with nf have "f \<noteq> root_of t" by blast
    with tree_parent [OF ok] that obtain par where "parent (h f) = Some par" by blast
    with nf that show ?thesis by (simp add: up_result_def)
  qed
  from n a b c show ?thesis by blast
qed

text \<open>
  C9. In a tree of links (the heap lays the tree out and the root has no parent), for a
  target in the tree, \<open>prependRootAdjacentLinkToward\<close> returns, given enough fuel: null
  and the traversal as it was when the traversal is empty, when the target is the front
  entry, or when the front entry is not in the tree of the target; the child \<open>c\<close> of the
  front entry whose subtree holds the target, put at index 0 with the counter raised,
  when the target lies below the front entry (the step from the new entry to the old
  front is then a step to the parent); and otherwise the parent of the front entry, put
  at index 0 with the counter as it was.
\<close>

theorem prependRootAdjacentLinkToward_spec:
  assumes "subtree_ok h t" and "distinct (preorder t)"
    and "parent (h (root_of t)) = None" and "target \<in> set (preorder t)"
  shows "\<exists>res n. (\<forall>m\<ge>n. prependRootAdjacentLinkToward m h target tr = Some res) \<and>
     (case links tr of
        [] \<Rightarrow> res = (None, tr)
      | front # _ \<Rightarrow>
          if front = target \<or> front \<notin> set (preorder t) then res = (None, tr)
          else if target \<in> set (descendants_of t front)
          then \<exists>c. res = (Some c, tr\<lparr>links := c # links tr,
                                     numUpwardConnections := numUpwardConnections tr + 1\<rparr>) \<and>
                   parent (h c) = Some front \<and>
                   (target = c \<or> target \<in> set (descendants_of t c))
          else \<exists>par. res = (Some par, tr\<lparr>links := par # links tr\<rparr>) \<and>
                     parent (h front) = Some par)"
proof (cases "links tr")
  case Nil
  then have "\<forall>m\<ge>0. prependRootAdjacentLinkToward m h target tr = Some (None, tr)"
    by (simp add: prependRootAdjacentLinkToward_def)
  with Nil show ?thesis by auto
next
  case (Cons front rest)
  from findRootAdjacentLink_tree [OF assms, of front] obtain res n where
    n: "\<forall>m\<ge>n. findRootAdjacentLink m h target None front True = Some res" and
    a: "front = target \<or> front \<notin> set (preorder t) \<longrightarrow> fst res = None" and
    b: "target \<in> set (descendants_of t front) \<longrightarrow>
        (\<exists>c. res = (Some c, True) \<and> parent (h c) = Some front \<and>
             (target = c \<or> target \<in> set (descendants_of t c)))" and
    c: "front \<in> set (preorder t) \<and> front \<noteq> target \<and> target \<notin> set (descendants_of t front) \<longrightarrow>
        (\<exists>par. res = (Some par, False) \<and> parent (h front) = Some par)"
    by blast
  have run: "prependRootAdjacentLinkToward m h target tr =
       (case res of
          (None, u) \<Rightarrow> Some (None, tr)
        | (Some x, u) \<Rightarrow>
            Some (Some x, if u then tr\<lparr>links := x # links tr,
                                     numUpwardConnections := numUpwardConnections tr + 1\<rparr>
                          else tr\<lparr>links := x # links tr\<rparr>))"
    if "n \<le> m" for m
    using n that Cons
    by (cases res; cases "fst res") (auto simp add: prependRootAdjacentLinkToward_def Let_def)
  show ?thesis
  proof (cases "front = target \<or> front \<notin> set (preorder t)")
    case True
    with a have "fst res = None" by simp
    then have "\<forall>m\<ge>n. prependRootAdjacentLinkToward m h target tr = Some (None, tr)"
      using run by (cases res) auto
    with True Cons show ?thesis by auto
  next
    case False
    show ?thesis
    proof (cases "target \<in> set (descendants_of t front)")
      case True
      with b obtain c where c: "res = (Some c, True)" "parent (h c) = Some front"
        "target = c \<or> target \<in> set (descendants_of t c)" by blast
      from c(1) run have "\<forall>m\<ge>n. prependRootAdjacentLinkToward m h target tr =
           Some (Some c, tr\<lparr>links := c # links tr,
                           numUpwardConnections := numUpwardConnections tr + 1\<rparr>)"
        by simp
      with False True Cons c(2,3) show ?thesis by auto
    next
      case nd: False
      with False c obtain par where p: "res = (Some par, False)" "parent (h front) = Some par"
        by blast
      from p(1) run have "\<forall>m\<ge>n. prependRootAdjacentLinkToward m h target tr =
           Some (Some par, tr\<lparr>links := par # links tr\<rparr>)"
        by simp
      with False nd Cons p(2) show ?thesis by auto
    qed
  qed
qed

lemma tree_fork_layout:
  "subtree_ok heap_fork tree_fork" "distinct (preorder tree_fork)"
  "parent (heap_fork (root_of tree_fork)) = None"
  by (simp_all add: tree_fork_def heap_fork_simps link0_def)

theorem prependRootAdjacentLinkToward_spec_witness:
  "(\<exists>res n. (\<forall>m\<ge>n. prependRootAdjacentLinkToward m heap_fork 3
                        \<lparr>links = [0], numUpwardConnections = 0\<rparr> = Some res) \<and>
       (\<exists>c. res = (Some c, \<lparr>links = [c, 0], numUpwardConnections = 1\<rparr>) \<and>
            parent (heap_fork c) = Some 0)) \<and>
   (\<exists>res n. (\<forall>m\<ge>n. prependRootAdjacentLinkToward m heap_fork 2
                        \<lparr>links = [3], numUpwardConnections = 0\<rparr> = Some res) \<and>
       (\<exists>par. res = (Some par, \<lparr>links = [par, 3], numUpwardConnections = 0\<rparr>) \<and>
            parent (heap_fork 3) = Some par)) \<and>
   prependRootAdjacentLinkToward 6 heap_fork 3 \<lparr>links = [0], numUpwardConnections = 0\<rparr>
     = Some (Some 1, \<lparr>links = [1, 0], numUpwardConnections = 1\<rparr>) \<and>
   prependRootAdjacentLinkToward 6 heap_fork 2 \<lparr>links = [3], numUpwardConnections = 0\<rparr>
     = Some (Some 1, \<lparr>links = [1, 3], numUpwardConnections = 0\<rparr>)"
proof -
  have d0: "set (descendants_of tree_fork 0) = {1, 2, 3}"
    by (auto simp add: tree_fork_def descendants_of_def)
  have d3: "set (descendants_of tree_fork 3) = {}"
    by (auto simp add: tree_fork_def descendants_of_def)
  have p: "set (preorder tree_fork) = {0, 1, 2, 3}"
    by (auto simp add: tree_fork_def)
  have a: "\<exists>res n. (\<forall>m\<ge>n. prependRootAdjacentLinkToward m heap_fork 3
                        \<lparr>links = [0], numUpwardConnections = 0\<rparr> = Some res) \<and>
       (\<exists>c. res = (Some c, \<lparr>links = [c, 0], numUpwardConnections = 1\<rparr>) \<and>
            parent (heap_fork c) = Some 0)"
    using prependRootAdjacentLinkToward_spec [OF tree_fork_layout, of 3
            "\<lparr>links = [0], numUpwardConnections = 0\<rparr>"]
    by (simp add: d0 p) blast
  have b: "\<exists>res n. (\<forall>m\<ge>n. prependRootAdjacentLinkToward m heap_fork 2
                        \<lparr>links = [3], numUpwardConnections = 0\<rparr> = Some res) \<and>
       (\<exists>par. res = (Some par, \<lparr>links = [par, 3], numUpwardConnections = 0\<rparr>) \<and>
            parent (heap_fork 3) = Some par)"
    using prependRootAdjacentLinkToward_spec [OF tree_fork_layout, of 2
            "\<lparr>links = [3], numUpwardConnections = 0\<rparr>"]
    by (simp add: d3 p)
  have c: "prependRootAdjacentLinkToward 6 heap_fork 3 \<lparr>links = [0], numUpwardConnections = 0\<rparr>
     = Some (Some 1, \<lparr>links = [1, 0], numUpwardConnections = 1\<rparr>)"
    by code_simp
  have d: "prependRootAdjacentLinkToward 6 heap_fork 2 \<lparr>links = [3], numUpwardConnections = 0\<rparr>
     = Some (Some 1, \<lparr>links = [1, 3], numUpwardConnections = 0\<rparr>)"
    by code_simp
  from a b c d show ?thesis by (intro conjI)
qed

end
